theory Spec2Isabelle
  imports Main "HOL-Library.Sublist" "HOL-Library.Multiset"
begin

section \<open>The thread pool of clear.js\<close>

text \<open>
  The pool is the class \<open>ThreadPool\<close> (clear.js, lines 198-254). Its fields are
  \<open>maxThreads\<close>, \<open>running\<close>, \<open>queue\<close> and \<open>results\<close>, set by the constructor, and
  \<open>_onComplete\<close>, which is undefined until \<open>runAll\<close> stores the \<open>resolve\<close> function of
  the promise it returns.

  clear.js runs on the single-threaded event loop of JavaScript: a handler attached to a
  promise runs to its end before any other handler starts, and it never runs inside the
  call that attached it. The part of the runtime the pool depends on is kept in the same
  record:
  \<^item> \<open>invoked\<close>: the tasks that \<open>_startThread\<close> has called, in the order of the calls;
  \<^item> \<open>chains\<close>: for the n-th call, where its chain \<open>task().then(..).catch(..).finally(..)\<close>
    stands:
    \<open>Pending\<close> while the promise returned by the task is not settled, \<open>Settled\<close> once the
    \<open>then\<close> or the \<open>catch\<close> handler has run, \<open>Finished\<close> once the \<open>finally\<close> handler has
    run;
  \<^item> \<open>console\<close>: the errors written by \<open>console.error\<close> in the \<open>catch\<close> handler;
  \<^item> \<open>promises\<close>: the promises returned by the calls of \<open>runAll\<close>, \<open>None\<close> while
    pending, \<open>Some r\<close> once resolved, \<open>r\<close> being what the array \<open>results\<close> holds at that
    moment (the promise is resolved with the array itself, not with a copy).

  A task is a function without arguments that returns a promise (in clear.js an
  \<open>async\<close> arrow function, which never throws at the call); what it does and how its
  promise settles belongs to the environment. Numbers are \<open>int\<close>: the counter only
  moves by one, far below the range where a JavaScript number stops being exact.
\<close>

datatype chain = Pending | Settled | Finished

datatype ('v, 'e) outcome = Fulfilled 'v | Rejected 'e

datatype ('v, 'e) event = Settle nat "('v, 'e) outcome" | Finally nat

datatype error = NotAFunction | NoSuchCallback

record ('t, 'v, 'e) pool =
  maxThreads :: int
  running :: int
  queue :: "'t list"
  results :: "'v list"
  onComplete :: "nat option"
  invoked :: "'t list"
  chains :: "chain list"
  console :: "'e list"
  promises :: "'v list option list"

text \<open>The constructor, lines 199-204.\<close>

definition ThreadPool :: "int \<Rightarrow> ('t, 'v, 'e) pool" where
  "ThreadPool n =
     \<lparr>maxThreads = n, running = 0, queue = [], results = [], onComplete = None,
      invoked = [], chains = [], console = [], promises = []\<rparr>"

text \<open>
  \<open>_startThread\<close>, lines 226-233: \<open>queue.shift()\<close> takes the first task, and returns
  \<open>undefined\<close> on an empty queue, where the method returns at once. Otherwise the counter
  goes up and the task is called; the three handlers are attached to its promise.
\<close>

definition startThread :: "('t, 'v, 'e) pool \<Rightarrow> ('t, 'v, 'e) pool" where
  "startThread s =
     (case queue s of
        [] \<Rightarrow> s
      | task # rest \<Rightarrow>
          s\<lparr>queue := rest, running := running s + 1,
            invoked := invoked s @ [task], chains := chains s @ [Pending]\<rparr>)"

text \<open>\<open>_startThreads\<close>, lines 219-224: the \<open>while\<close> loop.\<close>

function startThreads :: "('t, 'v, 'e) pool \<Rightarrow> ('t, 'v, 'e) pool" where
  "startThreads s =
     (if running s < maxThreads s \<and> queue s \<noteq> [] then startThreads (startThread s) else s)"
  by pat_completeness auto
termination
  by (relation "measure (\<lambda>s. length (queue s))")
     (auto simp: startThread_def split: list.splits)

declare startThreads.simps [simp del]

text \<open>
  \<open>runAll\<close>, lines 206-217. The executor of \<open>new Promise\<close> runs inside the call: it
  pushes every task, calls \<open>_startThreads\<close> and then stores \<open>resolve\<close>. The new promise
  is the next entry of \<open>promises\<close>.
\<close>

definition runAll :: "'t list \<Rightarrow> ('t, 'v, 'e) pool \<Rightarrow> ('t, 'v, 'e) pool" where
  "runAll tasks s =
     (let s1 = s\<lparr>queue := queue s @ tasks\<rparr>;
          s2 = startThreads s1
      in s2\<lparr>promises := promises s2 @ [None], onComplete := Some (length (promises s2))\<rparr>)"

text \<open>
  The handlers of lines 234-239: \<open>then\<close> pushes the value the task's promise was
  fulfilled with, \<open>catch\<close> writes the error to the console and pushes nothing.
\<close>

definition thenHandler :: "'v \<Rightarrow> ('t, 'v, 'e) pool \<Rightarrow> ('t, 'v, 'e) pool" where
  "thenHandler v s = s\<lparr>results := results s @ [v]\<rparr>"

definition catchHandler :: "'e \<Rightarrow> ('t, 'v, 'e) pool \<Rightarrow> ('t, 'v, 'e) pool" where
  "catchHandler e s = s\<lparr>console := console s @ [e]\<rparr>"

text \<open>
  The call \<open>this._onComplete(this.results)\<close> of line 250. Calling \<open>undefined\<close> throws a
  TypeError; a \<open>resolve\<close> function resolves its promise the first time it is called and
  does nothing afterwards.
\<close>

definition callOnComplete :: "('t, 'v, 'e) pool \<Rightarrow> error + ('t, 'v, 'e) pool" where
  "callOnComplete s =
     (case onComplete s of
        None \<Rightarrow> Inl NotAFunction
      | Some p \<Rightarrow>
          Inr (if p < length (promises s) \<and> promises s ! p = None
               then s\<lparr>promises := (promises s)[p := Some (results s)]\<rparr>
               else s))"

text \<open>The \<open>finally\<close> handler, lines 240-252.\<close>

definition finallyHandler :: "('t, 'v, 'e) pool \<Rightarrow> error + ('t, 'v, 'e) pool" where
  "finallyHandler s =
     (let s1 = s\<lparr>running := running s - 1\<rparr>;
          s2 = (if queue s1 \<noteq> [] then startThread s1 else s1)
      in if running s2 = 0 \<and> queue s2 = [] then callOnComplete s2 else Inr s2)"

text \<open>
  One turn of the event loop. \<open>Settle n out\<close>: the promise of the n-th call settles with
  \<open>out\<close> and its \<open>then\<close> or \<open>catch\<close> handler runs. \<open>Finally n\<close>: the \<open>finally\<close> handler of
  the n-th call runs, which the runtime does only after that \<open>then\<close> or \<open>catch\<close>. An event
  whose handler is not waiting cannot happen: \<open>NoSuchCallback\<close>.
\<close>

fun step :: "('v, 'e) event \<Rightarrow> ('t, 'v, 'e) pool \<Rightarrow> error + ('t, 'v, 'e) pool" where
  "step (Settle n out) s =
     (if n < length (chains s) \<and> chains s ! n = Pending
      then (let s1 = s\<lparr>chains := (chains s)[n := Settled]\<rparr>
            in Inr (case out of Fulfilled v \<Rightarrow> thenHandler v s1
                               | Rejected e \<Rightarrow> catchHandler e s1))
      else Inl NoSuchCallback)"
| "step (Finally n) s =
     (if n < length (chains s) \<and> chains s ! n = Settled
      then finallyHandler (s\<lparr>chains := (chains s)[n := Finished]\<rparr>)
      else Inl NoSuchCallback)"

text \<open>A schedule is the list of events in the order the event loop serves them.\<close>

fun exec :: "('v, 'e) event list \<Rightarrow> ('t, 'v, 'e) pool \<Rightarrow> error + ('t, 'v, 'e) pool" where
  "exec [] s = Inr s"
| "exec (e # es) s = (case step e s of Inl err \<Rightarrow> Inl err | Inr s' \<Rightarrow> exec es s')"

section \<open>The glue of \<open>main\<close>\<close>

text \<open>
  Tags are JavaScript strings, here \<open>string\<close>: the characters the code tests are ASCII,
  and a character outside ASCII is neither a digit nor a dot in either reading.
  Below are \<open>tag.startsWith(p)\<close>, \<open>tag.substring(n)\<close> (the tag from index \<open>n\<close> on, empty
  when the tag is shorter), and the test of the regular expression \<open>/[^0-9.]/\<close>, which
  finds a character outside the class of the digits (by code, from 48 for \<open>0\<close> to 57 for
  \<open>9\<close>) and the dot.
\<close>

definition startsWith :: "string \<Rightarrow> string \<Rightarrow> bool" where
  "startsWith tag p \<longleftrightarrow> prefix p tag"

definition substring :: "string \<Rightarrow> nat \<Rightarrow> string" where
  "substring tag n = drop n tag"

definition testNonDigitDot :: "string \<Rightarrow> bool" where
  "testNonDigitDot str \<longleftrightarrow>
     list_ex (\<lambda>c. \<not> ((48 \<le> (of_char c :: nat) \<and> (of_char c :: nat) \<le> 57) \<or> c = CHR ''.''))
       str"

text \<open>
  The classification of lines 79-104: \<open>allTags.forEach\<close> pushes every tag on one of two
  arrays.
\<close>

record tagLists =
  tagsToDelete :: "string list"
  tagsToKeep :: "string list"

definition classifyTag :: "string \<Rightarrow> tagLists \<Rightarrow> tagLists" where
  "classifyTag tag st =
     (let startsWithV = startsWith tag ''v35'' \<or> startsWith tag ''v36'' \<or>
                        startsWith tag ''v37'' \<or> startsWith tag ''v38''
      in if startsWithV
         then (let hasSuffix = testNonDigitDot (substring tag 3)
               in if hasSuffix then st\<lparr>tagsToDelete := tagsToDelete st @ [tag]\<rparr>
                  else st\<lparr>tagsToKeep := tagsToKeep st @ [tag]\<rparr>)
         else if startsWith tag ''v'' then st\<lparr>tagsToDelete := tagsToDelete st @ [tag]\<rparr>
              else st\<lparr>tagsToKeep := tagsToKeep st @ [tag]\<rparr>)"

definition classifyTags :: "string list \<Rightarrow> tagLists" where
  "classifyTags allTags =
     foldl (\<lambda>st tag. classifyTag tag st) \<lparr>tagsToDelete = [], tagsToKeep = []\<rparr> allTags"

text \<open>
  The rule of the classification in the words of its description, to compare the code
  with: a tag is deleted when it starts with \<open>v\<close> and either does not start with \<open>v35\<close>,
  \<open>v36\<close>, \<open>v37\<close> or \<open>v38\<close>, or has, from index 3 on, a character that is neither an ASCII
  digit nor a dot.
\<close>

definition spec_delete :: "string \<Rightarrow> bool" where
  "spec_delete tag \<longleftrightarrow>
     startsWith tag ''v'' \<and>
     (\<not> (startsWith tag ''v35'' \<or> startsWith tag ''v36'' \<or> startsWith tag ''v37'' \<or>
          startsWith tag ''v38'') \<or>
      (\<exists>c \<in> set (drop 3 tag). c \<notin> set ''0123456789'' \<and> c \<noteq> CHR ''.''))"

text \<open>
  \<open>runGitCommandAsync\<close> (lines 27-37) resolves with the trimmed output of the command or
  rejects with \<open>{ error, stderr }\<close>; of the rejection the glue reads \<open>stderr\<close> only, a
  string, for which \<open>error.stderr || ''\<close> is the string itself.
  \<open>str_includes\<close> is \<open>String.prototype.includes\<close>.
\<close>

datatype cmdResult = Resolved string | RejectedWith string

fun str_includes :: "string \<Rightarrow> string \<Rightarrow> bool" where
  "str_includes [] p \<longleftrightarrow> p = []"
| "str_includes (c # cs) p \<longleftrightarrow> startsWith (c # cs) p \<or> str_includes cs p"

definition isTagNotFoundError :: "string \<Rightarrow> bool" where
  "isTagNotFoundError stderr =
     (let errorMessage = stderr
      in str_includes errorMessage ''remote ref does not exist'' \<or>
         str_includes errorMessage ''remote ref is at'' \<or>
         str_includes errorMessage ''tag does not exist'')"

text \<open>
  One delete task, lines 147-169, given what \<open>git push origin --delete\<close> and, where the
  task comes to it, \<open>git tag -d\<close> answer. The task pushes on at most one of the three
  arrays of lines 141-143, and it does so in one piece, so the arrays at the end are the
  pushes of the tasks in the order in which they happened.
\<close>

record report =
  successTags :: "string list"
  failedTags :: "(string \<times> string) list"
  deletedLocalTags :: "string list"

definition deleteTask :: "string \<Rightarrow> cmdResult \<Rightarrow> cmdResult \<Rightarrow> report \<Rightarrow> report" where
  "deleteTask tag push localDelete st =
     (case push of
        Resolved out \<Rightarrow> st\<lparr>successTags := successTags st @ [tag]\<rparr>
      | RejectedWith stderr \<Rightarrow>
          if isTagNotFoundError stderr
          then (case localDelete of
                  Resolved out \<Rightarrow> st\<lparr>deletedLocalTags := deletedLocalTags st @ [tag]\<rparr>
                | RejectedWith localError \<Rightarrow> st)
          else st\<lparr>failedTags := failedTags st @ [(tag, stderr)]\<rparr>)"

text \<open>
  The arrays after \<open>await threadPool.runAll(deleteTasks)\<close>: \<open>runs\<close> lists the tasks in
  the order of their pushes, each with its tag and the two answers.
\<close>

definition runDeleteTasks :: "(string \<times> cmdResult \<times> cmdResult) list \<Rightarrow> report" where
  "runDeleteTasks runs =
     foldl (\<lambda>st (tag, push, localDelete). deleteTask tag push localDelete st)
       \<lparr>successTags = [], failedTags = [], deletedLocalTags = []\<rparr> runs"

fun tagNotFound :: "cmdResult \<Rightarrow> bool" where
  "tagNotFound (Resolved out) = False"
| "tagNotFound (RejectedWith stderr) = isTagNotFoundError stderr"

fun isResolved :: "cmdResult \<Rightarrow> bool" where
  "isResolved (Resolved out) = True"
| "isResolved (RejectedWith stderr) = False"

text \<open>
  The way of \<open>main\<close> (lines 62-195) to the pool. \<open>allTags\<close> is what \<open>git tag\<close> printed,
  split into lines, and \<open>confirmed\<close> is the test \<open>answer.toLowerCase() === 'y'\<close> of line 129
  on what the user typed. \<open>main\<close> returns when there is no tag (lines 72-76), when no tag
  is to be deleted (lines 122-126) and when the user does not confirm (lines 129-133). Only
  then does it make the pool, \<open>new ThreadPool(THREAD_POOL_SIZE)\<close> of line 138, and call
  \<open>runAll\<close> on one task for each tag to delete (lines 146-173); a task stands here as its
  tag. This is the only place of clear.js that makes a pool or calls \<open>runAll\<close>.
\<close>

definition THREAD_POOL_SIZE :: int where
  "THREAD_POOL_SIZE = 50"

datatype ('t, 'v, 'e) mainResult =
  NoTags | NothingToDelete | Cancelled | Started "('t, 'v, 'e) pool"

definition main :: "string list \<Rightarrow> bool \<Rightarrow> (string, 'v, 'e) mainResult" where
  "main allTags confirmed =
     (if allTags = [] then NoTags
      else (let lists = classifyTags allTags
            in if tagsToDelete lists = [] then NothingToDelete
               else if \<not> confirmed then Cancelled
               else Started (runAll (tagsToDelete lists) (ThreadPool THREAD_POOL_SIZE))))"

section \<open>Notions for the proofs\<close>

text \<open>
  What a schedule delivers: the values of its fulfilled promises and the errors of its
  rejected ones, each in the order of the schedule.
\<close>

fun fulfilled :: "('v, 'e) event list \<Rightarrow> 'v list" where
  "fulfilled [] = []"
| "fulfilled (Settle n (Fulfilled v) # es) = v # fulfilled es"
| "fulfilled (Settle n (Rejected e) # es) = fulfilled es"
| "fulfilled (Finally n # es) = fulfilled es"

fun rejected :: "('v, 'e) event list \<Rightarrow> 'e list" where
  "rejected [] = []"
| "rejected (Settle n (Fulfilled v) # es) = rejected es"
| "rejected (Settle n (Rejected e) # es) = e # rejected es"
| "rejected (Finally n # es) = rejected es"

text \<open>
  The invariant of one run \<open>runAll tasks\<close> on a new pool of \<open>K\<close> threads. A chain is live
  from the call of its task until its \<open>finally\<close> handler has run.
\<close>

definition live :: "chain list \<Rightarrow> nat" where
  "live cs = length (filter (\<lambda>c. c \<noteq> Finished) cs)"

definition settled :: "chain list \<Rightarrow> nat" where
  "settled cs = length (filter (\<lambda>c. c \<noteq> Pending) cs)"

definition pool_inv :: "'t list \<Rightarrow> int \<Rightarrow> ('t, 'v, 'e) pool \<Rightarrow> bool" where
  "pool_inv tasks K s \<longleftrightarrow>
     maxThreads s = K \<and>
     invoked s @ queue s = tasks \<and>
     length (chains s) = length (invoked s) \<and>
     running s = int (live (chains s)) \<and>
     running s \<le> K \<and>
     (queue s \<noteq> [] \<longrightarrow> running s = K) \<and>
     onComplete s = Some 0 \<and>
     length (results s) + length (console s) = settled (chains s) \<and>
     promises s =
       [if tasks \<noteq> [] \<and> queue s = [] \<and> running s = 0 then Some (results s) else None]"

text \<open>
  The handler runs still owed: two for a task that waits in the queue or whose promise is
  pending, one for a chain that waits for its \<open>finally\<close> handler.
\<close>

definition owed :: "('t, 'v, 'e) pool \<Rightarrow> nat" where
  "owed s =
     2 * length (queue s) + length (filter (\<lambda>c. c = Pending) (chains s)) + live (chains s)"

text \<open>What \<open>_startThreads\<close> keeps, whatever the state it starts in.\<close>

definition start_inv :: "'t list \<Rightarrow> ('t, 'v, 'e) pool \<Rightarrow> ('t, 'v, 'e) pool \<Rightarrow> bool" where
  "start_inv tasks s0 s \<longleftrightarrow>
     maxThreads s = maxThreads s0 \<and> results s = results s0 \<and> console s = console s0 \<and>
     onComplete s = onComplete s0 \<and> promises s = promises s0 \<and>
     invoked s @ queue s = tasks \<and>
     length (chains s) = length (invoked s) \<and>
     running s = int (live (chains s)) \<and>
     running s \<le> maxThreads s \<and>
     settled (chains s) = settled (chains s0)"

section \<open>Chains, counted\<close>

lemma filter_update_length:
  "n < length cs \<Longrightarrow>
   length (filter P (cs[n := x])) + (if P (cs ! n) then 1 else 0) =
   length (filter P cs) + (if P x then 1 else 0)"
proof (induction cs arbitrary: n)
  case Nil
  then show ?case by simp
next
  case (Cons c cs)
  show ?case
  proof (cases n)
    case 0
    then show ?thesis by simp
  next
    case (Suc m)
    with Cons.prems have "m < length cs" by simp
    from Cons.IH [OF this] Suc show ?thesis by simp
  qed
qed

lemma live_settle:
  "n < length cs \<Longrightarrow> cs ! n = Pending \<Longrightarrow> live (cs[n := Settled]) = live cs"
  using filter_update_length [of n cs "\<lambda>c. c \<noteq> Finished" Settled] by (simp add: live_def)

lemma settled_settle:
  "n < length cs \<Longrightarrow> cs ! n = Pending \<Longrightarrow> settled (cs[n := Settled]) = Suc (settled cs)"
  using filter_update_length [of n cs "\<lambda>c. c \<noteq> Pending" Settled] by (simp add: settled_def)

lemma pending_settle:
  "n < length cs \<Longrightarrow> cs ! n = Pending \<Longrightarrow>
   Suc (length (filter (\<lambda>c. c = Pending) (cs[n := Settled]))) = length (filter (\<lambda>c. c = Pending) cs)"
  using filter_update_length [of n cs "\<lambda>c. c = Pending" Settled] by simp

lemma live_finish:
  "n < length cs \<Longrightarrow> cs ! n = Settled \<Longrightarrow> Suc (live (cs[n := Finished])) = live cs"
  using filter_update_length [of n cs "\<lambda>c. c \<noteq> Finished" Finished] by (simp add: live_def)

lemma settled_finish:
  "n < length cs \<Longrightarrow> cs ! n = Settled \<Longrightarrow> settled (cs[n := Finished]) = settled cs"
  using filter_update_length [of n cs "\<lambda>c. c \<noteq> Pending" Finished] by (simp add: settled_def)

lemma pending_finish:
  "n < length cs \<Longrightarrow> cs ! n = Settled \<Longrightarrow>
   length (filter (\<lambda>c. c = Pending) (cs[n := Finished])) = length (filter (\<lambda>c. c = Pending) cs)"
  using filter_update_length [of n cs "\<lambda>c. c = Pending" Finished] by simp

lemma live_pos: "n < length cs \<Longrightarrow> cs ! n \<noteq> Finished \<Longrightarrow> 0 < live cs"
  unfolding live_def
  by (metis (mono_tags, lifting) filter_empty_conv length_greater_0_conv nth_mem)

lemma live_snoc [simp]: "live (cs @ [Pending]) = Suc (live cs)"
  by (simp add: live_def)

lemma settled_snoc [simp]: "settled (cs @ [Pending]) = settled cs"
  by (simp add: settled_def)

lemma live_le_length: "live cs \<le> length cs"
  by (simp add: live_def)

lemma live_all_pending: "settled cs = 0 \<Longrightarrow> live cs = length cs"
  by (induction cs) (auto simp: live_def settled_def split: if_splits)

lemma live_plus_finished: "live cs + length (filter (\<lambda>c. c = Finished) cs) = length cs"
  using sum_length_filter_compl [of "\<lambda>c. c \<noteq> Finished" cs] by (simp add: live_def)

lemma pending_le_live: "length (filter (\<lambda>c. c = Pending) cs) \<le> live cs"
  by (induction cs) (auto simp: live_def)

lemma pending_plus_settled: "length (filter (\<lambda>c. c = Pending) cs) + settled cs = length cs"
  using sum_length_filter_compl [of "\<lambda>c. c = Pending" cs] by (simp add: settled_def)

lemma live_zero_settled: "live cs = 0 \<Longrightarrow> settled cs = length cs"
  using pending_le_live [of cs] pending_plus_settled [of cs] by simp

lemma live_witness: "0 < live cs \<Longrightarrow> \<exists>n < length cs. cs ! n \<noteq> Finished"
  unfolding live_def
  by (metis (mono_tags, lifting) filter_False in_set_conv_nth length_greater_0_conv)

section \<open>The invariant of a run\<close>

text \<open>
  Every handler keeps the invariant, and \<open>runAll\<close> on a new pool establishes it: every
  state that a run reaches has it.
\<close>

lemma pool_invD:
  assumes "pool_inv tasks K s"
  shows "maxThreads s = K"
    and "invoked s @ queue s = tasks"
    and "length (chains s) = length (invoked s)"
    and "running s = int (live (chains s))"
    and "running s \<le> K"
    and "queue s \<noteq> [] \<longrightarrow> running s = K"
    and "onComplete s = Some 0"
    and "length (results s) + length (console s) = settled (chains s)"
    and "promises s =
       [if tasks \<noteq> [] \<and> queue s = [] \<and> running s = 0 then Some (results s) else None]"
  using assms unfolding pool_inv_def by blast+

lemma pool_inv_settle:
  assumes "pool_inv tasks K s" and "step (Settle n out) s = Inr s'"
  shows "pool_inv tasks K s'"
proof -
  from assms(2) have n: "n < length (chains s)" "chains s ! n = Pending"
    by (auto split: if_splits)
  from live_pos [OF n(1)] n(2) have pos: "0 < live (chains s)"
    by simp
  from assms(2) n have s': "s' = (case out of Fulfilled v \<Rightarrow> thenHandler v (s\<lparr>chains := (chains s)[n := Settled]\<rparr>)
      | Rejected e \<Rightarrow> catchHandler e (s\<lparr>chains := (chains s)[n := Settled]\<rparr>))"
    by (simp add: Let_def)
  show ?thesis
    using assms(1) pos live_settle [OF n] settled_settle [OF n]
    unfolding s' pool_inv_def
    by (cases out) (auto simp: thenHandler_def catchHandler_def)
qed

lemma pool_inv_finally:
  assumes "pool_inv tasks K s" and "step (Finally n) s = Inr s'"
  shows "pool_inv tasks K s'"
proof -
  from assms(2) have n: "n < length (chains s)" "chains s ! n = Settled"
    by (auto split: if_splits)
  from live_pos [OF n(1)] n(2) have pos: "0 < live (chains s)"
    by simp
  from assms(2) n have fin: "finallyHandler (s\<lparr>chains := (chains s)[n := Finished]\<rparr>) = Inr s'"
    by simp
  have inv0: "invoked s \<noteq> []" using assms(1) n(1) by (auto simp: pool_inv_def)
  show ?thesis
  proof (cases "queue s")
    case Nil
    with fin assms(1) pos inv0 live_finish [OF n] settled_finish [OF n] show ?thesis
      unfolding pool_inv_def finallyHandler_def callOnComplete_def
      by (auto simp: Let_def split: if_splits)
  next
    case (Cons t rest)
    with fin assms(1) pos inv0 live_finish [OF n] settled_finish [OF n] show ?thesis
      unfolding pool_inv_def finallyHandler_def callOnComplete_def startThread_def
      by (auto simp: Let_def split: if_splits)
  qed
qed

lemma pool_inv_step:
  "pool_inv tasks K s \<Longrightarrow> step e s = Inr s' \<Longrightarrow> pool_inv tasks K s'"
  by (cases e) (blast intro: pool_inv_settle pool_inv_finally)+

lemma pool_inv_exec:
  "pool_inv tasks K s \<Longrightarrow> exec sch s = Inr s' \<Longrightarrow> pool_inv tasks K s'"
proof (induction sch arbitrary: s)
  case Nil
  then show ?case by simp
next
  case (Cons e es)
  then show ?case
    by (auto split: sum.splits dest: pool_inv_step)
qed

lemma start_inv_startThread:
  "start_inv tasks s0 s \<Longrightarrow> running s < maxThreads s \<Longrightarrow> start_inv tasks s0 (startThread s)"
  by (auto simp: start_inv_def startThread_def split: list.splits)

lemma start_inv_startThreads:
  "start_inv tasks s0 s \<Longrightarrow> start_inv tasks s0 (startThreads s)"
proof (induction s rule: startThreads.induct)
  case (1 s)
  show ?case
  proof (cases "running s < maxThreads s \<and> queue s \<noteq> []")
    case True
    then have "start_inv tasks s0 (startThread s)"
      using "1.prems" by (simp add: start_inv_startThread)
    with "1.IH" True show ?thesis
      by (simp add: startThreads.simps [of s])
  next
    case False
    then have "startThreads s = s"
      by (subst startThreads.simps) auto
    with "1.prems" show ?thesis
      by simp
  qed
qed

lemma startThreads_saturated:
  "queue (startThreads s) \<noteq> [] \<Longrightarrow> maxThreads (startThreads s) \<le> running (startThreads s)"
proof (induction s rule: startThreads.induct)
  case (1 s)
  show ?case
  proof (cases "running s < maxThreads s \<and> queue s \<noteq> []")
    case True
    with "1.IH" "1.prems" show ?thesis
      by (simp add: startThreads.simps [of s])
  next
    case False
    then have "startThreads s = s"
      by (subst startThreads.simps) auto
    with False "1.prems" show ?thesis
      by auto
  qed
qed

lemma pool_inv_runAll:
  assumes "0 \<le> K"
  shows "pool_inv tasks K (runAll tasks (ThreadPool K :: ('t, 'v, 'e) pool))"
proof -
  define s0 :: "('t, 'v, 'e) pool" where "s0 = (ThreadPool K)\<lparr>queue := tasks\<rparr>"
  have "start_inv tasks s0 s0"
    using assms by (simp add: start_inv_def s0_def ThreadPool_def live_def)
  then have si: "start_inv tasks s0 (startThreads s0)"
    by (rule start_inv_startThreads)
  have sat: "queue (startThreads s0) \<noteq> [] \<Longrightarrow> maxThreads (startThreads s0) \<le> running (startThreads s0)"
    by (rule startThreads_saturated)
  have "settled (chains (startThreads s0)) = 0"
    using si by (simp add: start_inv_def s0_def ThreadPool_def settled_def)
  then have allp: "live (chains (startThreads s0)) = length (chains (startThreads s0))"
    by (rule live_all_pending)
  have r: "runAll tasks (ThreadPool K) =
      (startThreads s0)\<lparr>promises := promises (startThreads s0) @ [None],
         onComplete := Some (length (promises (startThreads s0)))\<rparr>"
    by (simp add: runAll_def Let_def s0_def ThreadPool_def)
  show ?thesis
    unfolding r pool_inv_def
    using si sat allp
    by (auto simp: start_inv_def s0_def ThreadPool_def settled_def)
qed

lemma reach_inv:
  assumes "0 \<le> K" and "exec sch (runAll tasks (ThreadPool K)) = Inr s"
  shows "pool_inv tasks K s"
  using pool_inv_exec [OF pool_inv_runAll [OF assms(1)] assms(2)] .

section \<open>What the handlers deliver\<close>

lemma finallyHandler_keeps:
  "finallyHandler s = Inr s' \<Longrightarrow>
   results s' = results s \<and> console s' = console s \<and> maxThreads s' = maxThreads s \<and>
   length (promises s') = length (promises s)"
  by (auto simp: finallyHandler_def callOnComplete_def startThread_def Let_def
           split: if_splits list.splits option.splits)

lemma step_delivers:
  "step e s = Inr s' \<Longrightarrow>
   results s' = results s @ fulfilled [e] \<and> console s' = console s @ rejected [e]"
proof (cases e)
  case (Settle n out)
  assume "step e s = Inr s'"
  with Settle show ?thesis
    by (cases out) (auto simp: thenHandler_def catchHandler_def Let_def split: if_splits)
next
  case (Finally n)
  assume "step e s = Inr s'"
  with Finally show ?thesis
    by (auto split: if_splits dest: finallyHandler_keeps)
qed

lemma fulfilled_Cons: "fulfilled (e # es) = fulfilled [e] @ fulfilled es"
  by (cases "(e # es)" rule: fulfilled.cases) auto

lemma rejected_Cons: "rejected (e # es) = rejected [e] @ rejected es"
  by (cases "(e # es)" rule: rejected.cases) auto

lemma exec_delivers:
  "exec sch s = Inr s' \<Longrightarrow>
   results s' = results s @ fulfilled sch \<and> console s' = console s @ rejected sch"
proof (induction sch arbitrary: s)
  case Nil
  then show ?case by simp
next
  case (Cons e es)
  from Cons.prems obtain s1 where s1: "step e s = Inr s1" "exec es s1 = Inr s'"
    by (auto split: sum.splits)
  from step_delivers [OF s1(1)] Cons.IH [OF s1(2)] show ?case
    by (simp add: fulfilled_Cons [of e es] rejected_Cons [of e es])
qed

lemma startThreads_keeps:
  "results (startThreads s) = results s \<and> console (startThreads s) = console s \<and>
   promises (startThreads s) = promises s \<and> onComplete (startThreads s) = onComplete s \<and>
   maxThreads (startThreads s) = maxThreads s"
proof (induction s rule: startThreads.induct)
  case (1 s)
  show ?case
  proof (cases "running s < maxThreads s \<and> queue s \<noteq> []")
    case True
    with "1.IH" show ?thesis
      by (subst (1 2 3 4 5) startThreads.simps) (auto simp: startThread_def split: list.splits)
  next
    case False
    then have "startThreads s = s"
      by (subst startThreads.simps) auto
    then show ?thesis by simp
  qed
qed

lemma runAll_keeps:
  "results (runAll tasks s) = results s \<and> console (runAll tasks s) = console s \<and>
   promises (runAll tasks s) = promises s @ [None]"
  by (simp add: runAll_def Let_def startThreads_keeps)

lemma reach_delivers:
  assumes "exec sch (runAll tasks (ThreadPool K)) = Inr s"
  shows "results s = fulfilled sch \<and> console s = rejected sch"
  using exec_delivers [OF assms] by (simp add: runAll_keeps ThreadPool_def)

section \<open>Progress\<close>

text \<open>
  Every turn of the event loop pays one of the handler runs owed, a state that owes one
  has a handler to run, and no handler of a run ever calls an undefined \<open>_onComplete\<close>.
\<close>

lemma step_owed: "step e s = Inr s' \<Longrightarrow> owed s = Suc (owed s')"
proof (cases e)
  case (Settle n out)
  assume st: "step e s = Inr s'"
  with Settle have n: "n < length (chains s)" "chains s ! n = Pending"
    by (auto split: if_splits)
  from st Settle n live_settle [OF n] pending_settle [OF n] show ?thesis
    by (cases out) (auto simp: owed_def thenHandler_def catchHandler_def Let_def)
next
  case (Finally n)
  assume st: "step e s = Inr s'"
  with Finally have n: "n < length (chains s)" "chains s ! n = Settled"
    by (auto split: if_splits)
  from st Finally n live_finish [OF n] pending_finish [OF n] show ?thesis
    by (auto simp: owed_def finallyHandler_def callOnComplete_def startThread_def Let_def
             split: if_splits list.splits option.splits)
qed

lemma exec_owed: "exec sch s = Inr s' \<Longrightarrow> owed s = length sch + owed s'"
proof (induction sch arbitrary: s)
  case Nil
  then show ?case by simp
next
  case (Cons e es)
  from Cons.prems obtain s1 where s1: "step e s = Inr s1" "exec es s1 = Inr s'"
    by (auto split: sum.splits)
  from step_owed [OF s1(1)] Cons.IH [OF s1(2)] show ?case by simp
qed

lemma owed_zero:
  assumes "pool_inv tasks K s" and "1 \<le> K"
  shows "owed s = 0 \<longleftrightarrow> live (chains s) = 0"
proof
  assume "owed s = 0"
  then show "live (chains s) = 0" by (simp add: owed_def)
next
  assume l: "live (chains s) = 0"
  with assms have "queue s = []" by (auto simp: pool_inv_def)
  with l pending_le_live [of "chains s"] show "owed s = 0" by (simp add: owed_def)
qed

lemma finallyHandler_defined:
  assumes "onComplete s = Some p"
  shows "\<exists>s'. finallyHandler s = Inr s'"
proof (cases "queue s")
  case Nil
  with assms show ?thesis
    by (simp add: finallyHandler_def callOnComplete_def Let_def)
next
  case (Cons t rest)
  with assms show ?thesis
    by (simp add: finallyHandler_def callOnComplete_def startThread_def Let_def)
qed

lemma step_enabled:
  assumes "pool_inv tasks K s" and "0 < live (chains s)"
  shows "\<exists>e s'. step e s = Inr s'"
proof -
  from live_witness [OF assms(2)] obtain n where n: "n < length (chains s)" "chains s ! n \<noteq> Finished"
    by blast
  show ?thesis
  proof (cases "chains s ! n = Pending")
    case True
    with n have "step (Settle n (Rejected undefined)) s =
      Inr (catchHandler undefined (s\<lparr>chains := (chains s)[n := Settled]\<rparr>))"
      by (simp add: Let_def)
    then show ?thesis by blast
  next
    case False
    with n have st: "chains s ! n = Settled" by (cases "chains s ! n") auto
    from assms(1) have "onComplete s = Some 0" by (simp add: pool_inv_def)
    then have "onComplete (s\<lparr>chains := (chains s)[n := Finished]\<rparr>) = Some 0" by simp
    from finallyHandler_defined [OF this]
    obtain s' where "finallyHandler (s\<lparr>chains := (chains s)[n := Finished]\<rparr>) = Inr s'"
      by blast
    with n st have "step (Finally n) s = Inr s'" by simp
    then show ?thesis by blast
  qed
qed

lemma step_never_throws:
  assumes "pool_inv tasks K s"
  shows "step e s \<noteq> Inl NotAFunction"
proof -
  from assms have "onComplete s = Some 0" by (simp add: pool_inv_def)
  then show ?thesis
    by (cases e) (auto simp: finallyHandler_def callOnComplete_def startThread_def Let_def
                       split: list.splits)
qed

lemma exec_never_throws:
  "pool_inv tasks K s \<Longrightarrow> exec sch s \<noteq> Inl NotAFunction"
proof (induction sch arbitrary: s)
  case Nil
  then show ?case by simp
next
  case (Cons e es)
  show ?case
  proof (cases "step e s")
    case (Inl err)
    with step_never_throws [OF Cons.prems, of e] show ?thesis by simp
  next
    case (Inr s1)
    with Cons.prems have "pool_inv tasks K s1" by (blast intro: pool_inv_step)
    from Cons.IH [OF this] Inr show ?thesis by simp
  qed
qed

lemma owed_runAll:
  assumes "0 \<le> K"
  shows "owed (runAll tasks (ThreadPool K :: ('t, 'v, 'e) pool)) = 2 * length tasks"
proof -
  let ?s = "runAll tasks (ThreadPool K :: ('t, 'v, 'e) pool)"
  have inv: "pool_inv tasks K ?s" using assms by (rule pool_inv_runAll)
  have "results ?s = []" "console ?s = []"
    by (simp_all add: runAll_keeps) (simp_all add: ThreadPool_def)
  with inv have z: "settled (chains ?s) = 0" by (simp add: pool_inv_def)
  then have l: "live (chains ?s) = length (chains ?s)" by (rule live_all_pending)
  from z pending_plus_settled [of "chains ?s"]
  have p: "length (filter (\<lambda>c. c = Pending) (chains ?s)) = length (chains ?s)" by simp
  from inv have "length (invoked ?s) + length (queue ?s) = length tasks"
    by (metis length_append pool_inv_def)
  moreover from inv have "length (chains ?s) = length (invoked ?s)" by (simp add: pool_inv_def)
  ultimately show ?thesis using l p by (simp add: owed_def)
qed

lemma exec_to_the_end:
  "pool_inv tasks K s \<Longrightarrow> owed s = n \<Longrightarrow> 1 \<le> K \<Longrightarrow>
   \<exists>sch s'. exec sch s = Inr s' \<and> owed s' = 0"
proof (induction n arbitrary: s)
  case 0
  then have "exec [] s = Inr s \<and> owed s = 0" by simp
  then show ?case by blast
next
  case (Suc n)
  from Suc.prems owed_zero [OF Suc.prems(1) Suc.prems(3)] have "0 < live (chains s)" by simp
  from step_enabled [OF Suc.prems(1) this] obtain e s1 where e: "step e s = Inr s1" by blast
  from step_owed [OF e] Suc.prems(2) have "owed s1 = n" by simp
  from Suc.IH [OF pool_inv_step [OF Suc.prems(1) e] this Suc.prems(3)]
  obtain es s' where "exec es s1 = Inr s'" "owed s' = 0" by blast
  with e have "exec (e # es) s = Inr s' \<and> owed s' = 0" by simp
  then show ?case by blast
qed

lemma step_none_when_finished:
  assumes "\<forall>c \<in> set (chains s). c = Finished"
  shows "step e s = Inl NoSuchCallback"
proof (cases e)
  case (Settle n out)
  from assms have "n < length (chains s) \<Longrightarrow> chains s ! n = Finished" by simp
  with Settle show ?thesis by auto
next
  case (Finally n)
  from assms have "n < length (chains s) \<Longrightarrow> chains s ! n = Finished" by simp
  with Finally show ?thesis by auto
qed

lemma runAll_never_throws:
  assumes "0 \<le> K"
  shows "exec sch (runAll tasks (ThreadPool K)) \<noteq> Inl NotAFunction"
  using exec_never_throws [OF pool_inv_runAll [OF assms]] .

section \<open>Runs on concrete inputs\<close>

lemmas pool_eval =
  runAll_def ThreadPool_def startThreads.simps startThread_def thenHandler_def
  catchHandler_def finallyHandler_def callOnComplete_def Let_def

lemma run_three_tasks:
  "exec [Settle 0 (Fulfilled 10), Settle 1 (Rejected ''boom''), Finally 1, Finally 0,
         Settle 2 (Fulfilled 30), Finally 2]
     (runAll [''t0'', ''t1'', ''t2''] (ThreadPool 2 :: (string, int, string) pool)) =
   Inr \<lparr>maxThreads = 2, running = 0, queue = [], results = [10, 30], onComplete = Some 0,
        invoked = [''t0'', ''t1'', ''t2''], chains = [Finished, Finished, Finished],
        console = [''boom''], promises = [Some [10, 30]]\<rparr>"
  by (simp add: pool_eval)

lemma run_three_tasks_midway:
  "exec [Settle 0 (Fulfilled 10), Finally 0]
     (runAll [''t0'', ''t1'', ''t2''] (ThreadPool 2 :: (string, int, string) pool)) =
   Inr \<lparr>maxThreads = 2, running = 2, queue = [], results = [10], onComplete = Some 0,
        invoked = [''t0'', ''t1'', ''t2''], chains = [Finished, Pending, Pending],
        console = [], promises = [None]\<rparr>"
  by (simp add: pool_eval)

lemma run_two_tasks_one_thread:
  "exec [Settle 0 (Rejected ''boom'')]
     (runAll [''t0'', ''t1''] (ThreadPool 1 :: (string, int, string) pool)) =
   Inr \<lparr>maxThreads = 1, running = 1, queue = [''t1''], results = [], onComplete = Some 0,
        invoked = [''t0''], chains = [Settled],
        console = [''boom''], promises = [None]\<rparr>"
  by (simp add: pool_eval)

lemma step_two_tasks_one_thread:
  "step (Finally 0 :: (int, string) event)
     \<lparr>maxThreads = 1, running = 1, queue = [''t1''], results = [], onComplete = Some 0,
        invoked = [''t0''], chains = [Settled],
        console = [''boom''], promises = [None]\<rparr> =
   Inr \<lparr>maxThreads = 1, running = 1, queue = [], results = [], onComplete = Some 0,
        invoked = [''t0'', ''t1''], chains = [Finished, Pending],
        console = [''boom''], promises = [None]\<rparr>"
  by (simp add: pool_eval)

lemma fresh_two_tasks_one_thread:
  "exec ([] :: (int, string) event list)
     (runAll [''t0'', ''t1''] (ThreadPool 1 :: (string, int, string) pool)) =
   Inr \<lparr>maxThreads = 1, running = 1, queue = [''t1''], results = [], onComplete = Some 0,
        invoked = [''t0''], chains = [Pending], console = [], promises = [None]\<rparr>"
  by (simp add: pool_eval)

lemma first_run:
  "exec [Settle 0 (Fulfilled 1), Finally 0]
     (runAll [''t0''] (ThreadPool 1 :: (string, int, string) pool)) =
   Inr \<lparr>maxThreads = 1, running = 0, queue = [], results = [1], onComplete = Some 0,
        invoked = [''t0''], chains = [Finished], console = [], promises = [Some [1]]\<rparr>"
  by (simp add: pool_eval)

lemma second_run:
  "exec [Settle 1 (Fulfilled 2), Finally 1]
     (runAll [''t1'']
        \<lparr>maxThreads = 1, running = 0, queue = [], results = [1 :: int], onComplete = Some 0,
         invoked = [''t0''], chains = [Finished], console = ([] :: string list),
         promises = [Some [1]]\<rparr>) =
   Inr \<lparr>maxThreads = 1, running = 0, queue = [], results = [1, 2], onComplete = Some 1,
        invoked = [''t0'', ''t1''], chains = [Finished, Finished], console = [],
        promises = [Some [1], Some [1, 2]]\<rparr>"
  by (simp add: pool_eval)

section \<open>The claims about the pool\<close>

text \<open>
  Throughout, a run is \<open>runAll tasks\<close> on a new pool \<open>ThreadPool K\<close> followed by a
  schedule \<open>sch\<close> of the event loop, and \<open>N\<close> is \<open>length tasks\<close>. The states a run
  reaches are the states between two handlers.
\<close>

text \<open>
  Claim C1, as the code has it. C1 says that the collection \<open>runAll\<close> resolves with has
  one entry for each of the \<open>N\<close> jobs, tagged success or failure. The code pushes an entry
  in the \<open>then\<close> handler only; the \<open>catch\<close> handler writes the error to the console. What
  holds for every \<open>K \<ge> 1\<close>: when the promise of \<open>runAll\<close> is resolved with \<open>r\<close>, then
  \<open>r\<close> is the list of the values of the jobs that were fulfilled, untagged and in the
  order in which they settled, and \<open>r\<close> has \<open>N\<close> entries less one for each job that was
  rejected (so \<open>N\<close> entries when no job is rejected).
\<close>

theorem runAll_resolves_with_fulfilled_values:
  assumes "1 \<le> K" and "exec sch (runAll tasks (ThreadPool K)) = Inr s"
    and "promises s = [Some r]"
  shows "r = fulfilled sch \<and> length r + length (rejected sch) = length tasks"
proof -
  from assms(1) have "0 \<le> K" by simp
  from reach_inv [OF this assms(2)] have inv: "pool_inv tasks K s" .
  from inv assms(3) have idle: "queue s = []" "running s = 0" "r = results s"
    by (auto simp: pool_inv_def split: if_splits)
  from inv idle have "live (chains s) = 0" by (simp add: pool_inv_def)
  then have "settled (chains s) = length (chains s)" by (rule live_zero_settled)
  with inv idle have "length (results s) + length (console s) = length tasks"
    by (auto simp: pool_inv_def)
  with reach_delivers [OF assms(2)] idle show ?thesis by simp
qed

text \<open>
  The theorem at three tasks on two threads, the second task rejected: the promise is
  resolved with the two values of the other tasks.
\<close>

theorem runAll_resolves_with_fulfilled_values_witness:
  "(1::int) \<le> 2 \<and>
   exec [Settle 0 (Fulfilled 10), Settle 1 (Rejected ''boom''), Finally 1, Finally 0,
         Settle 2 (Fulfilled 30), Finally 2]
     (runAll [''t0'', ''t1'', ''t2''] (ThreadPool 2 :: (string, int, string) pool)) =
   Inr \<lparr>maxThreads = 2, running = 0, queue = [], results = [10, 30], onComplete = Some 0,
        invoked = [''t0'', ''t1'', ''t2''], chains = [Finished, Finished, Finished],
        console = [''boom''], promises = [Some [10, 30]]\<rparr> \<and>
   [10, 30] = fulfilled [Settle 0 (Fulfilled 10), Settle 1 (Rejected ''boom''), Finally 1,
     Finally 0, Settle 2 (Fulfilled (30::int)), Finally 2] \<and>
   length [10, 30 :: int] +
   length (rejected [Settle 0 (Fulfilled (10::int)), Settle 1 (Rejected ''boom''), Finally 1,
     Finally 0, Settle 2 (Fulfilled 30), Finally 2]) = length [''t0'', ''t1'', ''t2'']"
proof -
  have k: "(1::int) \<le> 2" by simp
  have p: "promises \<lparr>maxThreads = 2, running = 0, queue = [], results = [10, 30 :: int],
        onComplete = Some 0, invoked = [''t0'', ''t1'', ''t2''],
        chains = [Finished, Finished, Finished],
        console = [''boom''], promises = [Some [10, 30]]\<rparr> = [Some [10, 30]]" by simp
  from runAll_resolves_with_fulfilled_values [OF k run_three_tasks p] k run_three_tasks
  show ?thesis by simp
qed

text \<open>
  C1 as stated fails at one task whose promise is rejected: \<open>runAll\<close> resolves with the
  empty collection, not with one entry.
\<close>

theorem runAll_results_miss_rejected_job:
  "map_sum id promises
     (exec [Settle 0 (Rejected ''boom''), Finally 0]
        (runAll [''t0''] (ThreadPool 1 :: (string, int, string) pool))) = Inr [Some []] \<and>
   length ([] :: int list) \<noteq> length [''t0'']"
  by (simp add: pool_eval)

lemma runAll_Nil:
  "runAll [] (ThreadPool K :: ('t, 'v, 'e) pool) =
     \<lparr>maxThreads = K, running = 0, queue = [], results = [], onComplete = Some 0,
      invoked = [], chains = [], console = [], promises = [None]\<rparr>"
  by (simp add: runAll_def ThreadPool_def Let_def startThreads.simps)

lemma main_submits_tasks:
  assumes "main allTags confirmed = Started s"
  shows "tagsToDelete (classifyTags allTags) \<noteq> [] \<and>
         s = runAll (tagsToDelete (classifyTags allTags)) (ThreadPool THREAD_POOL_SIZE)"
  using assms by (auto simp: main_def Let_def split: if_splits)

text \<open>
  Claim C2, as the code has it. C2 says that \<open>runAll\<close> of an empty job list completes at
  once, resolving with an empty collection, and dispatches nothing. In the code the empty
  list is dealt with before the pool: when no tag is to be deleted, \<open>main\<close> returns without
  making a pool, so nothing is dispatched and no collection is produced, and a pool that
  \<open>main\<close> has started was given a list that is not empty. \<open>runAll\<close> itself, on an empty
  list and whatever \<open>K\<close>, dispatches nothing and leaves its promise pending: \<open>_onComplete\<close>
  is called from a \<open>finally\<close> handler only, and with no task no event can happen.
\<close>

theorem empty_list_stops_in_main:
  fixes s :: "(string, 'v, 'e) pool"
  shows "(tagsToDelete (classifyTags allTags) = [] \<longrightarrow>
            (main allTags confirmed :: (string, 'v, 'e) mainResult) = NoTags \<or>
            (main allTags confirmed :: (string, 'v, 'e) mainResult) = NothingToDelete) \<and>
         (main allTags confirmed = Started s \<longrightarrow>
            tagsToDelete (classifyTags allTags) \<noteq> [] \<and>
            s = runAll (tagsToDelete (classifyTags allTags)) (ThreadPool THREAD_POOL_SIZE)) \<and>
         runAll [] (ThreadPool K :: ('t, 'v, 'e) pool) =
           \<lparr>maxThreads = K, running = 0, queue = [], results = [], onComplete = Some 0,
            invoked = [], chains = [], console = [], promises = [None]\<rparr> \<and>
         step e (runAll [] (ThreadPool K :: ('t, 'v, 'e) pool)) = Inl NoSuchCallback"
proof -
  have a: "tagsToDelete (classifyTags allTags) = [] \<longrightarrow>
      (main allTags confirmed :: (string, 'v, 'e) mainResult) = NoTags \<or>
      (main allTags confirmed :: (string, 'v, 'e) mainResult) = NothingToDelete"
    by (simp add: main_def Let_def)
  have b: "main allTags confirmed = Started s \<longrightarrow>
      tagsToDelete (classifyTags allTags) \<noteq> [] \<and>
      s = runAll (tagsToDelete (classifyTags allTags)) (ThreadPool THREAD_POOL_SIZE)"
    using main_submits_tasks [of allTags confirmed s] by blast
  have c: "step e (runAll [] (ThreadPool K :: ('t, 'v, 'e) pool)) = Inl NoSuchCallback"
    by (cases e) (simp_all add: runAll_Nil)
  from a b c show ?thesis by (simp add: runAll_Nil)
qed

text \<open>
  The theorem at two lists of tags: \<open>main\<close> and \<open>v36.1.2\<close> are both kept, and \<open>main\<close>
  returns without a pool; \<open>v1.0.0\<close> is to be deleted, and the pool starts its one task.
\<close>

theorem empty_list_stops_in_main_witness:
  "tagsToDelete (classifyTags [''main'', ''v36.1.2'']) = [] \<and>
   (main [''main'', ''v36.1.2''] True :: (string, int, string) mainResult) = NothingToDelete \<and>
   (main [''v1.0.0''] True :: (string, int, string) mainResult) =
     Started \<lparr>maxThreads = 50, running = 1, queue = [], results = [], onComplete = Some 0,
        invoked = [''v1.0.0''], chains = [Pending], console = [], promises = [None]\<rparr> \<and>
   tagsToDelete (classifyTags [''v1.0.0'']) \<noteq> []"
proof -
  let ?s = "\<lparr>maxThreads = 50, running = 1, queue = [], results = ([] :: int list),
        onComplete = Some 0, invoked = [''v1.0.0''], chains = [Pending],
        console = ([] :: string list), promises = [None]\<rparr>"
  have c1: "tagsToDelete (classifyTags [''main'', ''v36.1.2'']) = []"
    by (simp add: classifyTags_def classifyTag_def startsWith_def substring_def
          testNonDigitDot_def Let_def)
  have c2: "tagsToDelete (classifyTags [''v1.0.0'']) = [''v1.0.0'']"
    by (simp add: classifyTags_def classifyTag_def startsWith_def substring_def
          testNonDigitDot_def Let_def)
  have m: "(main [''v1.0.0''] True :: (string, int, string) mainResult) = Started ?s"
    by (simp add: main_def c2 THREAD_POOL_SIZE_def pool_eval)
  from empty_list_stops_in_main [of "[''main'', ''v36.1.2'']" True ?s] c1
  have n: "(main [''main'', ''v36.1.2''] True :: (string, int, string) mainResult) = NoTags \<or>
      (main [''main'', ''v36.1.2''] True :: (string, int, string) mainResult) = NothingToDelete"
    by blast
  have "(main [''main'', ''v36.1.2''] True :: (string, int, string) mainResult) \<noteq> NoTags"
    by (simp add: main_def Let_def)
  with n have n': "(main [''main'', ''v36.1.2''] True :: (string, int, string) mainResult) =
      NothingToDelete" by blast
  from empty_list_stops_in_main [of "[''v1.0.0'']" True ?s] m
  have "tagsToDelete (classifyTags [''v1.0.0'']) \<noteq> []" by blast
  with c1 n' m show ?thesis by blast
qed

text \<open>
  C2 as stated fails at \<open>new ThreadPool(50).runAll([])\<close>: the promise of \<open>runAll\<close> is
  pending, not resolved with the empty collection.
\<close>

theorem runAll_of_no_jobs_stays_pending:
  "runAll [] (ThreadPool 50 :: (string, int, string) pool) =
     \<lparr>maxThreads = 50, running = 0, queue = [], results = [], onComplete = Some 0,
      invoked = [], chains = [], console = [], promises = [None]\<rparr> \<and>
   promises (runAll [] (ThreadPool 50 :: (string, int, string) pool)) \<noteq> [Some []]"
  by (simp add: pool_eval)

text \<open>
  Claim C3: every job is invoked exactly once. At every state of a run the submitted list is
  the tasks invoked so far followed by the tasks still in the queue, so that no task is
  invoked twice (\<open>t\<close> is invoked as often as it was submitted, less the times it still
  waits), and when the event loop has nothing left to run, every task has been invoked and
  the queue is empty: none is skipped.
\<close>

theorem every_task_invoked_once:
  assumes "1 \<le> K" and "exec sch (runAll tasks (ThreadPool K)) = Inr s"
  shows "invoked s @ queue s = tasks \<and>
         count_list (invoked s) t + count_list (queue s) t = count_list tasks t \<and>
         ((\<forall>e. step e s = Inl NoSuchCallback) \<longrightarrow> invoked s = tasks \<and> queue s = [])"
proof -
  from assms(1) have "0 \<le> K" by simp
  from reach_inv [OF this assms(2)] have inv: "pool_inv tasks K s" .
  then have split: "invoked s @ queue s = tasks" by (simp add: pool_inv_def)
  have cnt: "count_list (invoked s) t + count_list (queue s) t = count_list tasks t"
    using split by (metis count_list_append)
  have fin: "invoked s = tasks \<and> queue s = []" if stuck: "\<forall>e. step e s = Inl NoSuchCallback"
  proof -
    have "live (chains s) = 0"
    proof (rule ccontr)
      assume "live (chains s) \<noteq> 0"
      then have "0 < live (chains s)" by simp
      from step_enabled [OF inv this] stuck show False by auto
    qed
    with inv assms(1) have "queue s = []" by (auto simp: pool_inv_def)
    with split show ?thesis by simp
  qed
  from split cnt fin show ?thesis by blast
qed

text \<open>
  The theorem at the end of the run of three tasks on two threads: no event is left, and
  the three tasks have been invoked.
\<close>

theorem every_task_invoked_once_witness:
  "(1::int) \<le> 2 \<and>
   exec [Settle 0 (Fulfilled 10), Settle 1 (Rejected ''boom''), Finally 1, Finally 0,
         Settle 2 (Fulfilled 30), Finally 2]
     (runAll [''t0'', ''t1'', ''t2''] (ThreadPool 2 :: (string, int, string) pool)) =
   Inr \<lparr>maxThreads = 2, running = 0, queue = [], results = [10, 30], onComplete = Some 0,
        invoked = [''t0'', ''t1'', ''t2''], chains = [Finished, Finished, Finished],
        console = [''boom''], promises = [Some [10, 30]]\<rparr> \<and>
   (\<forall>e. step e \<lparr>maxThreads = 2, running = 0, queue = [], results = [10, 30 :: int],
        onComplete = Some 0, invoked = [''t0'', ''t1'', ''t2''],
        chains = [Finished, Finished, Finished],
        console = [''boom''], promises = [Some [10, 30]]\<rparr> = Inl NoSuchCallback) \<and>
   count_list [''t0'', ''t1'', ''t2''] ''t1'' = 1"
proof -
  let ?s = "\<lparr>maxThreads = 2, running = 0, queue = [], results = [10, 30 :: int],
        onComplete = Some 0, invoked = [''t0'', ''t1'', ''t2''],
        chains = [Finished, Finished, Finished],
        console = [''boom''], promises = [Some [10, 30]]\<rparr>"
  have k: "(1::int) \<le> 2" by simp
  have stuck: "\<forall>e. step e ?s = Inl NoSuchCallback"
    by (simp add: step_none_when_finished)
  from every_task_invoked_once [OF k run_three_tasks, of "''t1''"] stuck
  have "count_list (invoked ?s) ''t1'' + count_list (queue ?s) ''t1'' =
      count_list [''t0'', ''t1'', ''t2''] ''t1'' \<and> invoked ?s = [''t0'', ''t1'', ''t2'']"
    by blast
  with k stuck run_three_tasks show ?thesis by simp
qed

text \<open>
  Claim C4: the counter \<open>running\<close> stays between 0 and \<open>min K N\<close>. At every state of a run
  with \<open>K \<ge> 1\<close> it is the number of tasks invoked less the number of chains whose
  \<open>finally\<close> handler has run: it goes up only where a task is started and down only where
  one has ended (the loop of \<open>_startThreads\<close> raises it only while it is below \<open>K\<close>,
  \<open>start_inv_startThread\<close>). As long as a chain has not finished it is at least 1, so the decrement at
  the head of the \<open>finally\<close> handler does not take it below 0 either.
\<close>

theorem running_within_limit:
  assumes "1 \<le> K" and "exec sch (runAll tasks (ThreadPool K)) = Inr s"
  shows "0 \<le> running s \<and> running s \<le> min K (int (length tasks)) \<and>
         running s =
           int (length (invoked s)) - int (length (filter (\<lambda>c. c = Finished) (chains s))) \<and>
         (\<forall>n < length (chains s). chains s ! n \<noteq> Finished \<longrightarrow> 1 \<le> running s)"
proof -
  from assms(1) have "0 \<le> K" by simp
  from reach_inv [OF this assms(2)] have inv: "pool_inv tasks K s" .
  note r = pool_invD(4) [OF inv] and k = pool_invD(5) [OF inv]
    and c = pool_invD(3) [OF inv] and t = pool_invD(2) [OF inv]
  from t have "length (invoked s) \<le> length tasks" by (metis length_append le_add1)
  with live_le_length [of "chains s"] c r have n: "running s \<le> int (length tasks)" by simp
  from live_plus_finished [of "chains s"] c r
  have d: "running s =
      int (length (invoked s)) - int (length (filter (\<lambda>c. c = Finished) (chains s)))"
    by simp
  have p: "\<forall>n < length (chains s). chains s ! n \<noteq> Finished \<longrightarrow> 1 \<le> running s"
    using live_pos [of _ "chains s"] r by fastforce
  from r k n d p show ?thesis by simp
qed

text \<open>
  The theorem in the middle of a run: three tasks, two threads, the first task has ended
  and the third has taken its place.
\<close>

theorem running_within_limit_witness:
  "(1::int) \<le> 2 \<and>
   exec [Settle 0 (Fulfilled 10), Finally 0]
     (runAll [''t0'', ''t1'', ''t2''] (ThreadPool 2 :: (string, int, string) pool)) =
   Inr \<lparr>maxThreads = 2, running = 2, queue = [], results = [10], onComplete = Some 0,
        invoked = [''t0'', ''t1'', ''t2''], chains = [Finished, Pending, Pending],
        console = [], promises = [None]\<rparr> \<and>
   (2::int) \<le> min 2 (int (length [''t0'', ''t1'', ''t2''])) \<and>
   (2::int) = int (length [''t0'', ''t1'', ''t2'']) -
     int (length (filter (\<lambda>c. c = Finished) [Finished, Pending, Pending]))"
proof -
  have k: "(1::int) \<le> 2" by simp
  from running_within_limit [OF k run_three_tasks_midway] k run_three_tasks_midway
  show ?thesis by simp
qed

text \<open>
  With the empty list the counter is 0 and the queue is empty from the start, and the
  promise stays pending under every schedule: the only schedule that can run is the empty
  one.
\<close>

lemma runAll_empty_hangs:
  "exec sch (runAll [] (ThreadPool K :: ('t, 'v, 'e) pool)) =
     (if sch = [] then Inr (runAll [] (ThreadPool K)) else Inl NoSuchCallback) \<and>
   running (runAll [] (ThreadPool K :: ('t, 'v, 'e) pool)) = 0 \<and>
   queue (runAll [] (ThreadPool K :: ('t, 'v, 'e) pool)) = [] \<and>
   promises (runAll [] (ThreadPool K :: ('t, 'v, 'e) pool)) = [None]"
proof (cases sch)
  case Nil
  then show ?thesis by (simp add: runAll_Nil)
next
  case (Cons e es)
  then show ?thesis by (cases e) (simp_all add: runAll_Nil)
qed

lemma exec_append:
  "exec (xs @ ys) x = (case exec xs x of Inl err \<Rightarrow> Inl err | Inr x' \<Rightarrow> exec ys x')"
  by (induction xs arbitrary: x) (auto split: sum.splits)

text \<open>
  Claim C5, as the code has it. C5 says that for every job list and every \<open>K \<ge> 1\<close> the run
  completes once every job has ended. The code signals completion from the \<open>finally\<close>
  handler of a job, so this holds for every list that is not empty, the only lists that
  \<open>main\<close> submits (\<open>main_submits_tasks\<close>). For such a list and \<open>K \<ge> 1\<close>, whatever the
  schedule and whatever the outcomes: a schedule has at most \<open>2 * N\<close> events; a shorter one
  can go on, so the run is never stuck before every job has ended; after \<open>2 * N\<close> events
  the promise is resolved with the results; at every state the promise is resolved with
  the results exactly when the counter is 0 and the queue is empty; and every schedule
  extends to one that completes.
\<close>

theorem runAll_completes:
  fixes s :: "('t, 'v, 'e) pool"
  assumes "1 \<le> K" and "tasks \<noteq> []" and "exec sch (runAll tasks (ThreadPool K)) = Inr s"
  shows "length sch \<le> 2 * length tasks \<and>
         (length sch < 2 * length tasks \<longrightarrow> (\<exists>e s'. step e s = Inr s')) \<and>
         (length sch = 2 * length tasks \<longrightarrow> promises s = [Some (results s)]) \<and>
         (running s = 0 \<and> queue s = [] \<longleftrightarrow> promises s = [Some (results s)]) \<and>
         (\<exists>es s'. exec (sch @ es) (runAll tasks (ThreadPool K)) = Inr s' \<and>
            promises s' = [Some (results s')])"
proof -
  from assms(1) have k: "0 \<le> K" by simp
  from reach_inv [OF k assms(3)] have inv: "pool_inv tasks K s" .
  have "owed (runAll tasks (ThreadPool K :: ('t, 'v, 'e) pool)) = 2 * length tasks"
    using k by (rule owed_runAll)
  with exec_owed [OF assms(3)]
  have o: "2 * length tasks = length sch + owed s" by simp
  then have a: "length sch \<le> 2 * length tasks" by simp
  have b: "\<exists>e s'. step e s = Inr s'" if "length sch < 2 * length tasks"
  proof -
    from that o have "owed s \<noteq> 0" by simp
    with owed_zero [OF inv assms(1)] have "0 < live (chains s)" by simp
    from step_enabled [OF inv this] show ?thesis .
  qed
  have fin: "promises x = [Some (results x)]" if "pool_inv tasks K x" "owed x = 0"
    for x :: "('t, 'v, 'e) pool"
  proof -
    from that owed_zero [OF that(1) assms(1)] have l: "live (chains x) = 0" by simp
    with pool_invD(4) [OF that(1)] have r: "running x = 0" by simp
    with pool_invD(6) [OF that(1)] assms(1) have "queue x = []" by auto
    with pool_invD(9) [OF that(1)] r assms(2) show ?thesis by simp
  qed
  have c: "promises s = [Some (results s)]" if "length sch = 2 * length tasks"
    using fin [OF inv] that o by simp
  have d: "running s = 0 \<and> queue s = [] \<longleftrightarrow> promises s = [Some (results s)]"
    using pool_invD(9) [OF inv] assms(2) by auto
  from exec_to_the_end [OF inv refl assms(1)] obtain es s'
    where es: "exec es s = Inr s'" "owed s' = 0" by blast
  from es(1) assms(3) have run: "exec (sch @ es) (runAll tasks (ThreadPool K)) = Inr s'"
    by (simp add: exec_append)
  from fin [OF pool_inv_exec [OF inv es(1)] es(2)] run
  have e: "\<exists>es s'. exec (sch @ es) (runAll tasks (ThreadPool K)) = Inr s' \<and>
      promises s' = [Some (results s')]" by blast
  from a b c d e show ?thesis by blast
qed

text \<open>
  The theorem at three tasks on two threads: after two events a handler is left to run,
  after all six the promise is resolved with the results.
\<close>

theorem runAll_completes_witness:
  "(1::int) \<le> 2 \<and> [''t0'', ''t1'', ''t2''] \<noteq> [] \<and>
   exec [Settle 0 (Fulfilled 10), Finally 0]
     (runAll [''t0'', ''t1'', ''t2''] (ThreadPool 2 :: (string, int, string) pool)) =
   Inr \<lparr>maxThreads = 2, running = 2, queue = [], results = [10], onComplete = Some 0,
        invoked = [''t0'', ''t1'', ''t2''], chains = [Finished, Pending, Pending],
        console = [], promises = [None]\<rparr> \<and>
   (\<exists>e s'. step e \<lparr>maxThreads = 2, running = 2, queue = [], results = [10 :: int],
        onComplete = Some 0, invoked = [''t0'', ''t1'', ''t2''],
        chains = [Finished, Pending, Pending],
        console = ([] :: string list), promises = [None]\<rparr> = Inr s') \<and>
   exec [Settle 0 (Fulfilled 10), Settle 1 (Rejected ''boom''), Finally 1, Finally 0,
         Settle 2 (Fulfilled 30), Finally 2]
     (runAll [''t0'', ''t1'', ''t2''] (ThreadPool 2 :: (string, int, string) pool)) =
   Inr \<lparr>maxThreads = 2, running = 0, queue = [], results = [10, 30], onComplete = Some 0,
        invoked = [''t0'', ''t1'', ''t2''], chains = [Finished, Finished, Finished],
        console = [''boom''], promises = [Some [10, 30]]\<rparr>"
proof -
  have k: "(1::int) \<le> 2" by simp
  have t: "[''t0'', ''t1'', ''t2''] \<noteq> []" by simp
  from runAll_completes [OF k t run_three_tasks_midway]
  have mid: "\<exists>e s'. step e \<lparr>maxThreads = 2, running = 2, queue = [], results = [10 :: int],
        onComplete = Some 0, invoked = [''t0'', ''t1'', ''t2''],
        chains = [Finished, Pending, Pending],
        console = ([] :: string list), promises = [None]\<rparr> = Inr s'"
    by simp
  from runAll_completes [OF k t run_three_tasks]
  have "promises \<lparr>maxThreads = 2, running = 0, queue = [], results = [10, 30 :: int],
        onComplete = Some 0, invoked = [''t0'', ''t1'', ''t2''],
        chains = [Finished, Finished, Finished],
        console = [''boom''], promises = [Some [10, 30]]\<rparr> = [Some [10, 30]]"
    by simp
  with k t mid run_three_tasks_midway run_three_tasks show ?thesis by blast
qed

text \<open>
  C5 as stated fails at the empty list on one thread: the counter is 0, the queue is empty,
  no job is left to end, and the promise is pending; neither a \<open>then\<close> nor a \<open>finally\<close>
  handler is there to run.
\<close>

theorem runAll_of_no_jobs_never_completes:
  "map_sum id (\<lambda>s. (running s, queue s, chains s, promises s))
     (exec [] (runAll [] (ThreadPool 1 :: (string, int, string) pool))) =
     Inr (0, [], [], [None]) \<and>
   exec [Settle 0 (Fulfilled 0)] (runAll [] (ThreadPool 1 :: (string, int, string) pool)) =
     Inl NoSuchCallback \<and>
   exec [Finally 0] (runAll [] (ThreadPool 1 :: (string, int, string) pool)) =
     Inl NoSuchCallback"
  by (simp add: pool_eval)

text \<open>
  Claim C6, as the code has it. C6 says that the failure of a job is recorded in the results
  collection. The code records it on the console only. The rest of C6 holds: for every
  \<open>K \<ge> 1\<close>, at every state of a run and for every chain that is pending there, a rejection
  with \<open>err\<close> adds \<open>err\<close> to the console and leaves results, queue, counter and promise as
  they are; the \<open>finally\<close> handler then runs without an exception, keeps the invariant of
  the run, and starts the first task of the queue when there is one, the counter being what
  it was. No schedule from there ever ends in the TypeError of an undefined \<open>_onComplete\<close>.
\<close>

theorem rejection_is_logged_and_batch_goes_on:
  assumes "1 \<le> K" and "exec sch (runAll tasks (ThreadPool K)) = Inr s"
    and "n < length (chains s)" and "chains s ! n = Pending"
  shows "\<exists>s1 s2. step (Settle n (Rejected err)) s = Inr s1 \<and>
           results s1 = results s \<and> console s1 = console s @ [err] \<and>
           queue s1 = queue s \<and> invoked s1 = invoked s \<and> running s1 = running s \<and>
           promises s1 = promises s \<and>
           step (Finally n) s1 = Inr s2 \<and> results s2 = results s \<and> pool_inv tasks K s2 \<and>
           (queue s \<noteq> [] \<longrightarrow>
              invoked s2 = invoked s @ [hd (queue s)] \<and> queue s2 = tl (queue s) \<and>
              running s2 = running s) \<and>
           (queue s = [] \<longrightarrow> invoked s2 = invoked s \<and> running s2 = running s - 1) \<and>
           (\<forall>es. exec es s2 \<noteq> Inl NotAFunction)"
proof -
  from assms(1) have k: "0 \<le> K" by simp
  from reach_inv [OF k assms(2)] have inv: "pool_inv tasks K s" .
  define s1 where "s1 = catchHandler err (s\<lparr>chains := (chains s)[n := Settled]\<rparr>)"
  have st1: "step (Settle n (Rejected err)) s = Inr s1"
    using assms(3,4) by (simp add: s1_def Let_def)
  have keep1: "results s1 = results s" "console s1 = console s @ [err]" "queue s1 = queue s"
    "invoked s1 = invoked s" "running s1 = running s" "promises s1 = promises s"
    by (simp_all add: s1_def catchHandler_def)
  have inv1: "pool_inv tasks K s1" using inv st1 by (rule pool_inv_step)
  have c1: "n < length (chains s1)" "chains s1 ! n = Settled"
    using assms(3) by (simp_all add: s1_def catchHandler_def)
  from inv1 have "onComplete (s1\<lparr>chains := (chains s1)[n := Finished]\<rparr>) = Some 0"
    by (simp add: pool_inv_def)
  from finallyHandler_defined [OF this] obtain s2
    where fin: "finallyHandler (s1\<lparr>chains := (chains s1)[n := Finished]\<rparr>) = Inr s2" by blast
  with c1 have st2: "step (Finally n) s1 = Inr s2" by simp
  have inv2: "pool_inv tasks K s2" using inv1 st2 by (rule pool_inv_step)
  from step_delivers [OF st2] keep1 have r2: "results s2 = results s" by simp
  have go: "invoked s2 = invoked s @ [hd (queue s)] \<and> queue s2 = tl (queue s) \<and>
      running s2 = running s" if "queue s \<noteq> []"
  proof -
    from that obtain t rest where q: "queue s = t # rest" by (cases "queue s") auto
    with fin show ?thesis
      by (auto simp: finallyHandler_def callOnComplete_def startThread_def Let_def s1_def
            catchHandler_def split: if_splits option.splits)
  qed
  have stop: "invoked s2 = invoked s \<and> running s2 = running s - 1" if "queue s = []"
    using fin that
    by (auto simp: finallyHandler_def callOnComplete_def Let_def s1_def catchHandler_def
          split: if_splits option.splits)
  have safe: "\<forall>es. exec es s2 \<noteq> Inl NotAFunction"
    using exec_never_throws [OF inv2] by blast
  from st1 keep1 st2 r2 inv2 go stop safe show ?thesis by blast
qed

text \<open>
  The theorem at two tasks on one thread, the first task rejected while the second waits:
  the error goes to the console, and the \<open>finally\<close> handler starts the second task.
\<close>

theorem rejection_is_logged_and_batch_goes_on_witness:
  "(1::int) \<le> 1 \<and>
   exec ([] :: (int, string) event list)
     (runAll [''t0'', ''t1''] (ThreadPool 1 :: (string, int, string) pool)) =
   Inr \<lparr>maxThreads = 1, running = 1, queue = [''t1''], results = [], onComplete = Some 0,
        invoked = [''t0''], chains = [Pending], console = [], promises = [None]\<rparr> \<and>
   (\<exists>s1 s2.
      step (Settle 0 (Rejected ''boom''))
        \<lparr>maxThreads = 1, running = 1, queue = [''t1''], results = ([] :: int list),
         onComplete = Some 0, invoked = [''t0''], chains = [Pending], console = [],
         promises = [None]\<rparr> = Inr s1 \<and>
      results s1 = [] \<and> console s1 = [''boom''] \<and>
      step (Finally 0) s1 = Inr s2 \<and> invoked s2 = [''t0'', ''t1''] \<and> queue s2 = [] \<and>
      running s2 = 1)"
proof -
  let ?s = "\<lparr>maxThreads = 1, running = 1, queue = [''t1''], results = ([] :: int list),
         onComplete = Some 0, invoked = [''t0''], chains = [Pending],
         console = ([] :: string list), promises = [None]\<rparr>"
  have k: "(1::int) \<le> 1" by simp
  have n: "0 < length (chains ?s)" "chains ?s ! 0 = Pending" by simp_all
  from rejection_is_logged_and_batch_goes_on [OF k fresh_two_tasks_one_thread n, of "''boom''"]
  obtain s1 s2 where
    "step (Settle 0 (Rejected ''boom'')) ?s = Inr s1" "results s1 = results ?s"
    "console s1 = console ?s @ [''boom'']" "step (Finally 0) s1 = Inr s2"
    "queue ?s \<noteq> [] \<longrightarrow> invoked s2 = invoked ?s @ [hd (queue ?s)] \<and> queue s2 = tl (queue ?s) \<and>
              running s2 = running ?s"
    by blast
  then have "step (Settle 0 (Rejected ''boom'')) ?s = Inr s1 \<and>
      results s1 = [] \<and> console s1 = [''boom''] \<and>
      step (Finally 0) s1 = Inr s2 \<and> invoked s2 = [''t0'', ''t1''] \<and> queue s2 = [] \<and>
      running s2 = 1"
    by simp
  with k fresh_two_tasks_one_thread show ?thesis by blast
qed

text \<open>
  C6 as stated fails at two tasks on two threads, the first rejected and the second
  fulfilled with 7: the run resolves with \<open>[7]\<close>, and the failure is on the console and not
  in the results.
\<close>

theorem rejection_is_not_in_results:
  "map_sum id (\<lambda>s. (results s, console s, promises s))
     (exec [Settle 0 (Rejected ''boom''), Finally 0, Settle 1 (Fulfilled 7), Finally 1]
        (runAll [''t0'', ''t1''] (ThreadPool 2 :: (string, int, string) pool))) =
   Inr ([7], [''boom''], [Some [7]]) \<and>
   length [7 :: int] \<noteq> length [''t0'', ''t1'']"
  by (simp add: pool_eval)

lemma first_dispatch:
  assumes "0 \<le> K"
  shows "invoked (runAll tasks (ThreadPool K :: ('t, 'v, 'e) pool)) = take (nat K) tasks \<and>
         queue (runAll tasks (ThreadPool K :: ('t, 'v, 'e) pool)) = drop (nat K) tasks"
proof -
  let ?s = "runAll tasks (ThreadPool K :: ('t, 'v, 'e) pool)"
  have inv: "pool_inv tasks K ?s" using assms by (rule pool_inv_runAll)
  have "results ?s = []" "console ?s = []"
    by (simp_all add: runAll_keeps) (simp_all add: ThreadPool_def)
  with inv have "settled (chains ?s) = 0" by (simp add: pool_inv_def)
  then have "live (chains ?s) = length (chains ?s)" by (rule live_all_pending)
  with inv have r: "running ?s = int (length (invoked ?s))" by (simp add: pool_inv_def)
  from inv have t: "invoked ?s @ queue ?s = tasks" by (simp add: pool_inv_def)
  note le = pool_invD(5) [OF inv] and sat = pool_invD(6) [OF inv]
  show ?thesis
  proof (cases "queue ?s = []")
    case True
    with t have "invoked ?s = tasks" by simp
    moreover from le r have "length (invoked ?s) \<le> nat K" by linarith
    ultimately show ?thesis using True by simp
  next
    case False
    with sat r have "length (invoked ?s) = nat K" by linarith
    with t show ?thesis by (metis append_eq_conv_conj)
  qed
qed

lemma step_invokes_head:
  assumes "step e s = Inr s'"
  shows "(invoked s' = invoked s \<and> queue s' = queue s) \<or>
         (queue s \<noteq> [] \<and> invoked s' = invoked s @ [hd (queue s)] \<and> queue s' = tl (queue s))"
proof (cases e)
  case (Settle n out)
  with assms show ?thesis
    by (cases out) (auto simp: thenHandler_def catchHandler_def Let_def split: if_splits)
next
  case (Finally n)
  with assms have fin: "finallyHandler (s\<lparr>chains := (chains s)[n := Finished]\<rparr>) = Inr s'"
    by (auto split: if_splits)
  show ?thesis
  proof (cases "queue s")
    case Nil
    with fin show ?thesis
      by (auto simp: finallyHandler_def callOnComplete_def Let_def split: if_splits option.splits)
  next
    case (Cons t rest)
    with fin show ?thesis
      by (auto simp: finallyHandler_def callOnComplete_def startThread_def Let_def
               split: if_splits option.splits)
  qed
qed

text \<open>
  Claim C7: tasks are started in the order of submission. For \<open>K \<ge> 1\<close>, \<open>runAll\<close> itself
  starts the first \<open>K\<close> tasks of the list (all of them when there are fewer); at every state
  of a run the tasks invoked are a prefix of the list and the queue is the rest; and a
  handler that starts a task starts the one at the head of the rest, the earliest task not
  yet started. Nothing is said of the order in which tasks end: that is the order of the
  schedule (\<open>completion_order_is_free\<close> below).
\<close>

theorem dispatch_is_fifo:
  fixes s :: "('t, 'v, 'e) pool"
  assumes "1 \<le> K" and "exec sch (runAll tasks (ThreadPool K)) = Inr s"
    and "step e s = Inr s'"
  shows "invoked (runAll tasks (ThreadPool K :: ('t, 'v, 'e) pool)) = take (nat K) tasks \<and>
         invoked s = take (length (invoked s)) tasks \<and>
         queue s = drop (length (invoked s)) tasks \<and>
         (invoked s' = invoked s \<or>
          length (invoked s) < length tasks \<and>
          invoked s' = invoked s @ [tasks ! length (invoked s)])"
proof -
  from assms(1) have k: "0 \<le> K" by simp
  from reach_inv [OF k assms(2)] have inv: "pool_inv tasks K s" .
  then have t: "invoked s @ queue s = tasks" by (simp add: pool_inv_def)
  then have a: "invoked s = take (length (invoked s)) tasks"
    and b: "queue s = drop (length (invoked s)) tasks"
    by (metis append_eq_conv_conj)+
  have c: "invoked s' = invoked s \<or>
      length (invoked s) < length tasks \<and> invoked s' = invoked s @ [tasks ! length (invoked s)]"
  proof (cases "invoked s' = invoked s")
    case True
    then show ?thesis by simp
  next
    case False
    with step_invokes_head [OF assms(3)]
    have q: "queue s \<noteq> []" "invoked s' = invoked s @ [hd (queue s)]" by auto
    from q(1) t have l: "length (invoked s) < length tasks"
      by (metis length_append length_greater_0_conv less_add_same_cancel1)
    from q(1) t have "tasks ! length (invoked s) = hd (queue s)"
      by (metis hd_conv_nth nth_append_length_plus add.right_neutral)
    with q l show ?thesis by simp
  qed
  from first_dispatch [OF k, of tasks] a b c show ?thesis by blast
qed

text \<open>
  The theorem at two tasks on one thread: \<open>runAll\<close> starts the first, and the \<open>finally\<close>
  handler of the first starts the second.
\<close>

theorem dispatch_is_fifo_witness:
  "(1::int) \<le> 1 \<and>
   exec [Settle 0 (Rejected ''boom'')]
     (runAll [''t0'', ''t1''] (ThreadPool 1 :: (string, int, string) pool)) =
   Inr \<lparr>maxThreads = 1, running = 1, queue = [''t1''], results = [], onComplete = Some 0,
        invoked = [''t0''], chains = [Settled],
        console = [''boom''], promises = [None]\<rparr> \<and>
   step (Finally 0 :: (int, string) event)
     \<lparr>maxThreads = 1, running = 1, queue = [''t1''], results = [], onComplete = Some 0,
        invoked = [''t0''], chains = [Settled],
        console = [''boom''], promises = [None]\<rparr> =
   Inr \<lparr>maxThreads = 1, running = 1, queue = [], results = [], onComplete = Some 0,
        invoked = [''t0'', ''t1''], chains = [Finished, Pending],
        console = [''boom''], promises = [None]\<rparr> \<and>
   invoked (runAll [''t0'', ''t1''] (ThreadPool 1 :: (string, int, string) pool)) = [''t0''] \<and>
   [''t0'', ''t1''] ! length [''t0''] = ''t1''"
proof -
  have k: "(1::int) \<le> 1" by simp
  from dispatch_is_fifo [OF k run_two_tasks_one_thread step_two_tasks_one_thread] k
    run_two_tasks_one_thread step_two_tasks_one_thread
  show ?thesis by simp
qed

lemma completion_order_is_free:
  "map_sum id results
     (exec [Settle 0 (Fulfilled 1), Settle 1 (Fulfilled 2), Finally 0, Finally 1]
        (runAll [''t0'', ''t1''] (ThreadPool 2 :: (string, int, string) pool))) = Inr [1, 2]"
  "map_sum id results
     (exec [Settle 1 (Fulfilled 2), Settle 0 (Fulfilled 1), Finally 1, Finally 0]
        (runAll [''t0'', ''t1''] (ThreadPool 2 :: (string, int, string) pool))) = Inr [2, 1]"
  by (simp_all add: pool_eval)

lemma callOnComplete_promise:
  assumes "callOnComplete s = Inr s'" and "p < length (promises s)"
  shows "results s' = results s \<and> length (promises s') = length (promises s) \<and>
         (promises s' ! p = promises s ! p \<or>
          promises s ! p = None \<and> promises s' ! p = Some (results s'))"
proof (cases "onComplete s")
  case None
  with assms(1) show ?thesis by (simp add: callOnComplete_def)
next
  case (Some q)
  show ?thesis
  proof (cases "q < length (promises s) \<and> promises s ! q = None")
    case True
    with Some assms have s': "s' = s\<lparr>promises := (promises s)[q := Some (results s)]\<rparr>"
      by (simp add: callOnComplete_def)
    show ?thesis
      using True assms(2) unfolding s' by (cases "p = q") simp_all
  next
    case False
    with Some assms(1) have "s' = s" by (auto simp: callOnComplete_def)
    then show ?thesis by simp
  qed
qed

lemma finallyHandler_promise:
  assumes "finallyHandler s = Inr s'" and "p < length (promises s)"
  shows "length (promises s') = length (promises s) \<and>
         (promises s' ! p = promises s ! p \<or>
          promises s ! p = None \<and> promises s' ! p = Some (results s'))"
proof -
  define s2 where "s2 = (if queue (s\<lparr>running := running s - 1\<rparr>) \<noteq> []
      then startThread (s\<lparr>running := running s - 1\<rparr>) else s\<lparr>running := running s - 1\<rparr>)"
  have p2: "promises s2 = promises s"
    by (simp add: s2_def startThread_def split: list.splits)
  show ?thesis
  proof (cases "running s2 = 0 \<and> queue s2 = []")
    case True
    with assms(1) have "callOnComplete s2 = Inr s'"
      by (simp add: finallyHandler_def Let_def s2_def)
    moreover from assms(2) p2 have "p < length (promises s2)" by simp
    ultimately show ?thesis using p2 by (auto dest: callOnComplete_promise)
  next
    case False
    with assms(1) have "s' = s2"
      by (auto simp: finallyHandler_def Let_def s2_def)
    with p2 show ?thesis by simp
  qed
qed

lemma step_promise:
  assumes "step e s = Inr s'" and "p < length (promises s)"
  shows "length (promises s') = length (promises s) \<and>
         (promises s' ! p = promises s ! p \<or>
          promises s ! p = None \<and> promises s' ! p = Some (results s'))"
proof (cases e)
  case (Settle n out)
  with assms(1) have "promises s' = promises s"
    by (cases out) (auto simp: thenHandler_def catchHandler_def Let_def split: if_splits)
  then show ?thesis by simp
next
  case (Finally n)
  with assms(1) have "finallyHandler (s\<lparr>chains := (chains s)[n := Finished]\<rparr>) = Inr s'"
    by (auto split: if_splits)
  from finallyHandler_promise [OF this, of p] assms(2) show ?thesis by simp
qed

lemma exec_promises_length:
  "exec sch s = Inr s' \<Longrightarrow> length (promises s') = length (promises s)"
proof (induction sch arbitrary: s)
  case Nil
  then show ?case by simp
next
  case (Cons e es)
  from Cons.prems obtain s1 where s1: "step e s = Inr s1" "exec es s1 = Inr s'"
    by (auto split: sum.splits)
  have "length (promises s1) = length (promises s)"
  proof (cases e)
    case (Settle n out)
    with s1(1) show ?thesis
      by (cases out) (auto simp: thenHandler_def catchHandler_def Let_def split: if_splits)
  next
    case (Finally n)
    with s1(1) show ?thesis
      by (auto split: if_splits dest: finallyHandler_keeps)
  qed
  with Cons.IH [OF s1(2)] show ?case by simp
qed

lemma exec_resolved_stays:
  "exec sch s = Inr s' \<Longrightarrow> p < length (promises s) \<Longrightarrow> promises s ! p = Some r \<Longrightarrow>
   promises s' ! p = Some r"
proof (induction sch arbitrary: s)
  case Nil
  then show ?case by simp
next
  case (Cons e es)
  from Cons.prems(1) obtain s1 where s1: "step e s = Inr s1" "exec es s1 = Inr s'"
    by (auto split: sum.splits)
  from step_promise [OF s1(1) Cons.prems(2)] Cons.prems(2,3)
  have "p < length (promises s1)" "promises s1 ! p = Some r" by auto
  from Cons.IH [OF s1(2) this] show ?case .
qed

lemma exec_resolves_later:
  "exec sch s = Inr s' \<Longrightarrow> p < length (promises s) \<Longrightarrow> promises s ! p = None \<Longrightarrow>
   promises s' ! p = Some r \<Longrightarrow> prefix (results s) r"
proof (induction sch arbitrary: s)
  case Nil
  then show ?case by simp
next
  case (Cons e es)
  from Cons.prems(1) obtain s1 where s1: "step e s = Inr s1" "exec es s1 = Inr s'"
    by (auto split: sum.splits)
  from step_delivers [OF s1(1)] have grow: "prefix (results s) (results s1)" by simp
  from step_promise [OF s1(1) Cons.prems(2)]
  have len: "p < length (promises s1)"
    and alt: "promises s1 ! p = promises s ! p \<or> promises s1 ! p = Some (results s1)"
    using Cons.prems(2) by auto
  show ?case
  proof (cases "promises s1 ! p")
    case None
    from Cons.IH [OF s1(2) len None Cons.prems(4)] grow show ?thesis
      by (rule prefix_order.trans [rotated])
  next
    case (Some x)
    with alt Cons.prems(3) have x: "x = results s1" by simp
    from exec_resolved_stays [OF s1(2) len Some] Cons.prems(4) have "r = x" by simp
    with x grow show ?thesis by simp
  qed
qed

text \<open>
  Claim C8: the results are never cleared between runs. \<open>runAll\<close> and the handlers only ever
  append to \<open>results\<close>. So when \<open>runAll\<close> is called a second time on the same pool, in the
  state \<open>s1\<close> that a first run has reached, and the promise of the second call is resolved
  with \<open>r2\<close>, then \<open>r2\<close> begins with everything the first run has pushed, the values
  fulfilled in the first schedule.
\<close>

theorem results_survive_second_run:
  assumes "exec sch1 (runAll tasks1 (ThreadPool K)) = Inr s1"
    and "exec sch2 (runAll tasks2 s1) = Inr s2"
    and "promises s2 ! 1 = Some r2"
  shows "results s1 = fulfilled sch1 \<and> prefix (results s1) r2"
proof -
  from exec_promises_length [OF assms(1)] have l1: "length (promises s1) = 1"
    by (simp add: runAll_keeps ThreadPool_def)
  have p: "promises (runAll tasks2 s1) = promises s1 @ [None]"
    and r: "results (runAll tasks2 s1) = results s1"
    by (simp_all add: runAll_keeps)
  from p l1 have "1 < length (promises (runAll tasks2 s1))" "promises (runAll tasks2 s1) ! 1 = None"
    by (simp_all add: nth_append)
  from exec_resolves_later [OF assms(2) this assms(3)] r
  have "prefix (results s1) r2" by simp
  with reach_delivers [OF assms(1)] show ?thesis by simp
qed

text \<open>
  The theorem at two runs of one task each on one thread: the second run resolves with
  the value of the first run followed by its own.
\<close>

theorem results_survive_second_run_witness:
  "exec [Settle 0 (Fulfilled 1), Finally 0]
     (runAll [''t0''] (ThreadPool 1 :: (string, int, string) pool)) =
   Inr \<lparr>maxThreads = 1, running = 0, queue = [], results = [1], onComplete = Some 0,
        invoked = [''t0''], chains = [Finished], console = [], promises = [Some [1]]\<rparr> \<and>
   exec [Settle 1 (Fulfilled 2), Finally 1]
     (runAll [''t1'']
        \<lparr>maxThreads = 1, running = 0, queue = [], results = [1 :: int], onComplete = Some 0,
         invoked = [''t0''], chains = [Finished], console = ([] :: string list),
         promises = [Some [1]]\<rparr>) =
   Inr \<lparr>maxThreads = 1, running = 0, queue = [], results = [1, 2], onComplete = Some 1,
        invoked = [''t0'', ''t1''], chains = [Finished, Finished], console = [],
        promises = [Some [1], Some [1, 2]]\<rparr> \<and>
   [Some [1], Some [1, 2 :: int]] ! 1 = Some [1, 2] \<and>
   prefix [1 :: int] [1, 2]"
proof -
  have p: "promises \<lparr>maxThreads = 1, running = 0, queue = [], results = [1, 2 :: int],
        onComplete = Some 1, invoked = [''t0'', ''t1''], chains = [Finished, Finished],
        console = ([] :: string list), promises = [Some [1], Some [1, 2]]\<rparr> ! 1 = Some [1, 2]"
    by simp
  from results_survive_second_run [OF first_run second_run p] p first_run second_run
  show ?thesis by simp
qed

section \<open>The claims about the glue\<close>

lemma deleteTask_cases:
  "deleteTask tag p l st =
     (if isResolved p then st\<lparr>successTags := successTags st @ [tag]\<rparr>
      else if \<not> tagNotFound p then st\<lparr>failedTags := failedTags st @ [(tag, case p of RejectedWith e \<Rightarrow> e | Resolved out \<Rightarrow> out)]\<rparr>
      else if isResolved l then st\<lparr>deletedLocalTags := deletedLocalTags st @ [tag]\<rparr>
      else st)"
  by (cases p; cases l) (simp_all add: deleteTask_def)

lemma foldl_deleteTask_counts:
  "length (successTags (foldl (\<lambda>st (tag, p, l). deleteTask tag p l st) st runs)) +
   length (failedTags (foldl (\<lambda>st (tag, p, l). deleteTask tag p l st) st runs)) +
   length (filter (\<lambda>(tag, p, l). tagNotFound p) runs) =
   length (successTags st) + length (failedTags st) + length runs"
proof (induction runs arbitrary: st)
  case Nil
  then show ?case by simp
next
  case (Cons r runs)
  obtain tag p l where r: "r = (tag, p, l)" by (cases r)
  show ?case
    using Cons.IH [of "deleteTask tag p l st"]
    by (cases p) (auto simp: r deleteTask_cases)
qed

lemma foldl_deleteTask_success:
  "set (successTags (foldl (\<lambda>st (tag, p, l). deleteTask tag p l st) st runs)) =
   set (successTags st) \<union> {tag. \<exists>p l. (tag, p, l) \<in> set runs \<and> isResolved p}"
proof (induction runs arbitrary: st)
  case Nil
  then show ?case by simp
next
  case (Cons r runs)
  obtain tag p l where r: "r = (tag, p, l)" by (cases r)
  show ?case
    unfolding r foldl_Cons prod.case Cons.IH
    by (auto simp: deleteTask_cases)
qed

lemma foldl_deleteTask_failed:
  "fst ` set (failedTags (foldl (\<lambda>st (tag, p, l). deleteTask tag p l st) st runs)) =
   fst ` set (failedTags st) \<union>
   {tag. \<exists>p l. (tag, p, l) \<in> set runs \<and> \<not> isResolved p \<and> \<not> tagNotFound p}"
proof (induction runs arbitrary: st)
  case Nil
  then show ?case by simp
next
  case (Cons r runs)
  obtain tag p l where r: "r = (tag, p, l)" by (cases r)
  show ?case
    unfolding r foldl_Cons prod.case Cons.IH
    by (auto simp: deleteTask_cases)
qed

lemma foldl_deleteTask_local:
  "set (deletedLocalTags (foldl (\<lambda>st (tag, p, l). deleteTask tag p l st) st runs)) =
   set (deletedLocalTags st) \<union>
   {tag. \<exists>p l. (tag, p, l) \<in> set runs \<and> tagNotFound p \<and> isResolved l}"
proof (induction runs arbitrary: st)
  case Nil
  then show ?case by simp
next
  case (Cons r runs)
  obtain tag p l where r: "r = (tag, p, l)" by (cases r)
  have nf: "tagNotFound p \<Longrightarrow> \<not> isResolved p" by (cases p) auto
  show ?case
    unfolding r foldl_Cons prod.case Cons.IH
    using nf by (auto simp: deleteTask_cases)
qed

lemma includes_sublist: "str_includes s p \<longleftrightarrow> sublist p s"
  by (induction s) (auto simp: startsWith_def sublist_Cons_right)

lemma digit_range:
  "(48 \<le> (of_char c :: nat) \<and> (of_char c :: nat) \<le> 57) \<longleftrightarrow> c \<in> set ''0123456789''"
proof
  assume "c \<in> set ''0123456789''"
  then show "48 \<le> (of_char c :: nat) \<and> (of_char c :: nat) \<le> 57" by auto
next
  assume "48 \<le> (of_char c :: nat) \<and> (of_char c :: nat) \<le> 57"
  then have "(of_char c :: nat) \<in> {48, 49, 50, 51, 52, 53, 54, 55, 56, 57}"
    by (simp only: insert_iff empty_iff) arith
  then have "(of_char c :: nat) \<in> of_char ` set ''0123456789''" by simp
  then obtain d where d: "d \<in> set ''0123456789''" "(of_char c :: nat) = of_char d"
    by blast
  from d(2) have "c = d" by simp
  with d(1) show "c \<in> set ''0123456789''" by simp
qed

lemma testNonDigitDot_spec:
  "testNonDigitDot str \<longleftrightarrow> (\<exists>c \<in> set str. c \<notin> set ''0123456789'' \<and> c \<noteq> CHR ''.'')"
  unfolding testNonDigitDot_def list_ex_iff digit_range by blast

lemma startsWith_v:
  "startsWith tag ''v35'' \<or> startsWith tag ''v36'' \<or> startsWith tag ''v37'' \<or>
   startsWith tag ''v38'' \<Longrightarrow> startsWith tag ''v''"
  by (auto simp: startsWith_def prefix_def)

lemma classifyTag_spec:
  "classifyTag tag st =
     (if spec_delete tag then st\<lparr>tagsToDelete := tagsToDelete st @ [tag]\<rparr>
      else st\<lparr>tagsToKeep := tagsToKeep st @ [tag]\<rparr>)"
proof (cases "startsWith tag ''v35'' \<or> startsWith tag ''v36'' \<or> startsWith tag ''v37'' \<or>
   startsWith tag ''v38''")
  case True
  with startsWith_v [OF True] show ?thesis
    by (simp add: classifyTag_def spec_delete_def substring_def testNonDigitDot_spec Let_def)
next
  case False
  then show ?thesis
    by (simp add: classifyTag_def spec_delete_def Let_def)
qed

lemma foldl_classifyTag:
  "foldl (\<lambda>st tag. classifyTag tag st) st tags =
     \<lparr>tagsToDelete = tagsToDelete st @ filter spec_delete tags,
      tagsToKeep = tagsToKeep st @ filter (\<lambda>t. \<not> spec_delete t) tags\<rparr>"
  by (induction tags arbitrary: st) (simp_all add: classifyTag_spec)

text \<open>
  Claim C9: a tag whose remote deletion fails with a tag-not-found error is counted neither
  as a success nor as a failure. A task whose push is rejected with such an error leaves
  \<open>successTags\<close> and \<open>failedTags\<close> as they are. Let every tag to delete have run its task
  once (\<open>runs\<close> holds the tags of \<open>tagsToDelete\<close> in some order). Then the two counts of the
  report add up to at most the number of tags to delete, and to less as soon as one push
  was rejected with a tag-not-found error; and where the tags are distinct, as the names
  that \<open>git tag\<close> prints are, the tag of such a task is in neither \<open>successTags\<close> nor
  \<open>failedTags\<close>, and in \<open>deletedLocalTags\<close> exactly when the local deletion succeeded.
\<close>

theorem tag_not_found_is_not_counted:
  assumes "mset (map fst runs) = mset (tagsToDelete (classifyTags allTags))"
  shows "(isTagNotFoundError stderr \<longrightarrow>
            successTags (deleteTask tag0 (RejectedWith stderr) answer st) = successTags st \<and>
            failedTags (deleteTask tag0 (RejectedWith stderr) answer st) = failedTags st) \<and>
         length (successTags (runDeleteTasks runs)) + length (failedTags (runDeleteTasks runs))
           \<le> length (tagsToDelete (classifyTags allTags)) \<and>
         (\<forall>(tag, p, l) \<in> set runs. tagNotFound p \<longrightarrow>
            length (successTags (runDeleteTasks runs)) + length (failedTags (runDeleteTasks runs))
              < length (tagsToDelete (classifyTags allTags)) \<and>
            (distinct allTags \<longrightarrow>
               tag \<notin> set (successTags (runDeleteTasks runs)) \<and>
               tag \<notin> fst ` set (failedTags (runDeleteTasks runs)) \<and>
               (tag \<in> set (deletedLocalTags (runDeleteTasks runs)) \<longleftrightarrow> isResolved l)))"
proof -
  let ?R = "runDeleteTasks runs"
  let ?N = "length (tagsToDelete (classifyTags allTags))"
  have one: "isTagNotFoundError stderr \<longrightarrow>
      successTags (deleteTask tag0 (RejectedWith stderr) answer st) = successTags st \<and>
      failedTags (deleteTask tag0 (RejectedWith stderr) answer st) = failedTags st"
    by (cases answer) (simp_all add: deleteTask_def)
  from assms have len: "length runs = ?N"
    by (metis length_map size_mset)
  have cnt: "length (successTags ?R) + length (failedTags ?R) +
      length (filter (\<lambda>(tag, p, l). tagNotFound p) runs) = length runs"
    using foldl_deleteTask_counts
      [of "\<lparr>successTags = [], failedTags = [], deletedLocalTags = []\<rparr>" runs]
    by (simp add: runDeleteTasks_def)
  have le: "length (successTags ?R) + length (failedTags ?R) \<le> ?N"
    using cnt len by simp
  have less: "length (successTags ?R) + length (failedTags ?R) < ?N"
    if mem: "(tag, p, l) \<in> set runs" and nf: "tagNotFound p" for tag p l
  proof -
    have "filter (\<lambda>(tag, p, l). tagNotFound p) runs \<noteq> []"
      using mem nf by (auto simp: filter_empty_conv)
    then have "0 < length (filter (\<lambda>(tag, p, l). tagNotFound p) runs)"
      by simp
    with cnt len show ?thesis by linarith
  qed
  have each: "tag \<notin> set (successTags ?R) \<and> tag \<notin> fst ` set (failedTags ?R) \<and>
      (tag \<in> set (deletedLocalTags ?R) \<longleftrightarrow> isResolved l)"
    if mem: "(tag, p, l) \<in> set runs" and nf: "tagNotFound p" and d: "distinct allTags"
    for tag p l
  proof -
    from d have "distinct (tagsToDelete (classifyTags allTags))"
      by (simp add: classifyTags_def foldl_classifyTag)
    with assms have dist: "distinct (map fst runs)"
      by (metis mset_eq_imp_distinct_iff)
    have same: "p' = p \<and> l' = l" if "(tag, p', l') \<in> set runs" for p' l'
      using eq_key_imp_eq_value [OF dist mem that] by simp
    have nr: "\<not> isResolved p" using nf by (cases p) auto
    have a: "tag \<notin> set (successTags ?R)"
      using same nr by (auto simp: runDeleteTasks_def foldl_deleteTask_success)
    have b: "tag \<notin> fst ` set (failedTags ?R)"
      using same nf unfolding runDeleteTasks_def foldl_deleteTask_failed by auto
    have "tag \<in> set (deletedLocalTags ?R) \<longleftrightarrow>
        (\<exists>p' l'. (tag, p', l') \<in> set runs \<and> tagNotFound p' \<and> isResolved l')"
      by (simp add: runDeleteTasks_def foldl_deleteTask_local)
    also have "\<dots> \<longleftrightarrow> isResolved l"
      using same mem nf by blast
    finally have c: "tag \<in> set (deletedLocalTags ?R) \<longleftrightarrow> isResolved l" .
    from a b c show ?thesis by blast
  qed
  from less each
  have all: "\<forall>(tag, p, l) \<in> set runs. tagNotFound p \<longrightarrow>
      length (successTags ?R) + length (failedTags ?R) < ?N \<and>
      (distinct allTags \<longrightarrow>
         tag \<notin> set (successTags ?R) \<and> tag \<notin> fst ` set (failedTags ?R) \<and>
         (tag \<in> set (deletedLocalTags ?R) \<longleftrightarrow> isResolved l))"
    by blast
  from one le all show ?thesis by (intro conjI)
qed

text \<open>
  The theorem at three tags of which the second is gone on the remote: one success, one
  failure, three tags to delete.
\<close>

theorem tag_not_found_is_not_counted_witness:
  "mset (map fst
     [(''v2.0.0'', RejectedWith ''error: unable to delete: remote ref does not exist'',
         Resolved ''Deleted tag''),
      (''v1.0.0'', Resolved '''', Resolved ''''),
      (''v3.0.0'', RejectedWith ''permission denied'', Resolved '''')]) =
   mset (tagsToDelete (classifyTags [''v1.0.0'', ''v2.0.0'', ''main'', ''v3.0.0''])) \<and>
   distinct [''v1.0.0'', ''v2.0.0'', ''main'', ''v3.0.0''] \<and>
   tagNotFound (RejectedWith ''error: unable to delete: remote ref does not exist'') \<and>
   runDeleteTasks
     [(''v2.0.0'', RejectedWith ''error: unable to delete: remote ref does not exist'',
         Resolved ''Deleted tag''),
      (''v1.0.0'', Resolved '''', Resolved ''''),
      (''v3.0.0'', RejectedWith ''permission denied'', Resolved '''')] =
   \<lparr>successTags = [''v1.0.0''], failedTags = [(''v3.0.0'', ''permission denied'')],
    deletedLocalTags = [''v2.0.0'']\<rparr> \<and>
   length [''v1.0.0''] + length [(''v3.0.0'', ''permission denied'')] <
   length (tagsToDelete (classifyTags [''v1.0.0'', ''v2.0.0'', ''main'', ''v3.0.0'']))"
proof -
  let ?runs = "[(''v2.0.0'', RejectedWith ''error: unable to delete: remote ref does not exist'',
         Resolved ''Deleted tag''),
      (''v1.0.0'', Resolved '''', Resolved ''''),
      (''v3.0.0'', RejectedWith ''permission denied'', Resolved '''')]"
  have c: "tagsToDelete (classifyTags [''v1.0.0'', ''v2.0.0'', ''main'', ''v3.0.0'']) =
      [''v1.0.0'', ''v2.0.0'', ''v3.0.0'']"
    by (simp add: classifyTags_def classifyTag_def startsWith_def substring_def
          testNonDigitDot_def Let_def)
  have m: "mset (map fst ?runs) =
      mset (tagsToDelete (classifyTags [''v1.0.0'', ''v2.0.0'', ''main'', ''v3.0.0'']))"
    unfolding c by simp
  have d: "distinct [''v1.0.0'', ''v2.0.0'', ''main'', ''v3.0.0'']" by simp
  have nf: "tagNotFound (RejectedWith ''error: unable to delete: remote ref does not exist'')"
    by (simp add: isTagNotFoundError_def startsWith_def)
  have r: "runDeleteTasks ?runs =
      \<lparr>successTags = [''v1.0.0''], failedTags = [(''v3.0.0'', ''permission denied'')],
       deletedLocalTags = [''v2.0.0'']\<rparr>"
    by (simp add: runDeleteTasks_def deleteTask_def isTagNotFoundError_def startsWith_def)
  from tag_not_found_is_not_counted [OF m] nf
  have "length (successTags (runDeleteTasks ?runs)) + length (failedTags (runDeleteTasks ?runs))
      < length (tagsToDelete (classifyTags [''v1.0.0'', ''v2.0.0'', ''main'', ''v3.0.0'']))"
    by simp
  then have "length [''v1.0.0''] + length [(''v3.0.0'', ''permission denied'')] <
      length (tagsToDelete (classifyTags [''v1.0.0'', ''v2.0.0'', ''main'', ''v3.0.0'']))"
    unfolding r by simp
  with m d nf r show ?thesis by blast
qed

text \<open>
  Claim C10: the classification of \<open>main\<close> follows the rule \<open>spec_delete\<close>. The tags to
  delete are the tags of \<open>allTags\<close> that the rule names, in their order, and the tags to keep
  are all the others: every tag is on exactly one of the two lists. A tag that does not
  start with \<open>v\<close> is kept, and so is \<open>v350.0.0\<close>.
\<close>

theorem classification_matches_rule:
  "tagsToDelete (classifyTags allTags) = filter spec_delete allTags \<and>
   tagsToKeep (classifyTags allTags) = filter (\<lambda>t. \<not> spec_delete t) allTags \<and>
   set (tagsToDelete (classifyTags allTags)) \<inter> set (tagsToKeep (classifyTags allTags)) = {} \<and>
   length (tagsToDelete (classifyTags allTags)) + length (tagsToKeep (classifyTags allTags)) =
     length allTags \<and>
   (\<not> startsWith tag ''v'' \<longrightarrow> \<not> spec_delete tag) \<and>
   classifyTags [''v350.0.0''] = \<lparr>tagsToDelete = [], tagsToKeep = [''v350.0.0'']\<rparr>"
proof -
  have c: "classifyTags allTags =
    \<lparr>tagsToDelete = filter spec_delete allTags,
     tagsToKeep = filter (\<lambda>t. \<not> spec_delete t) allTags\<rparr>" for allTags
    by (simp add: classifyTags_def foldl_classifyTag)
  have k: "\<not> spec_delete ''v350.0.0''"
    by (simp add: spec_delete_def startsWith_def)
  have d: "set (filter spec_delete allTags) \<inter> set (filter (\<lambda>t. \<not> spec_delete t) allTags) = {}"
    by auto
  have v: "\<not> startsWith tag ''v'' \<longrightarrow> \<not> spec_delete tag"
    by (simp add: spec_delete_def)
  show ?thesis
    unfolding c tagLists.simps
    using sum_length_filter_compl [of spec_delete allTags] k d v
    by simp
qed

text \<open>
  The theorem at five tags: two to delete, three to keep, \<open>main\<close> among them since it does
  not start with \<open>v\<close>.
\<close>

theorem classification_matches_rule_witness:
  "classifyTags [''v350.0.0'', ''v35.0.0-beta.1'', ''v1.0.0'', ''main'', ''v36.1.2''] =
     \<lparr>tagsToDelete = [''v35.0.0-beta.1'', ''v1.0.0''],
      tagsToKeep = [''v350.0.0'', ''main'', ''v36.1.2'']\<rparr> \<and>
   filter spec_delete [''v350.0.0'', ''v35.0.0-beta.1'', ''v1.0.0'', ''main'', ''v36.1.2''] =
     [''v35.0.0-beta.1'', ''v1.0.0''] \<and>
   \<not> startsWith ''main'' ''v'' \<and> \<not> spec_delete ''main''"
  using classification_matches_rule [of "[''v350.0.0'', ''v35.0.0-beta.1'', ''v1.0.0'', ''main'', ''v36.1.2'']" "''main''"]
  by (simp add: classifyTags_def classifyTag_def startsWith_def substring_def testNonDigitDot_def Let_def)

end
